theory Spec2Isabelle
  imports Main "HOL-Library.Word" "HOL-Library.Multiset"
begin

unbundle bit_operations_syntax

section \<open>Machine integers, errors and compile-time constants\<close>

text \<open>
  The program is \<^verbatim>\<open>ParamPassTiming.cpp\<close>.  \<open>size_t\<close> is taken to be 64 bits wide and its arithmetic
  wraps around.  \<open>units\<close> is \<open>std::chrono::milliseconds\<close>, a duration with a signed
  representation, so durations are integers and their difference may be negative.  Loop
  counters and array indices, which the code keeps below small bounds, are natural numbers.

  A failed \<open>assert\<close>, a failed \<open>static_assert\<close>, an index outside an array and a remainder by
  zero end the program; they are the values of \<open>error\<close>, and a function that can fail returns
  \<open>error + result\<close>.
\<close>

type_synonym size_t = "64 word"

type_synonym units = int

datatype error = AssertionFailed | StaticAssertFailed | OutOfRange | DivisionByZero

text \<open>
  The constants that the source sets per build.  \<open>release_config\<close> and \<open>debug_config\<close> hold
  the values of the source without and with \<open>_DEBUG\<close>.  \<open>kValuesToSumMax\<close> and \<open>kSlots\<close> are
  the same in both.
\<close>

record config =
  kTotalRuns :: size_t
  kTotalPasses :: size_t
  kMaxArraySizex2 :: size_t

definition release_config :: config where
  "release_config = \<lparr>kTotalRuns = 31, kTotalPasses = 100000000, kMaxArraySizex2 = 4096\<rparr>"

definition debug_config :: config where
  "debug_config = \<lparr>kTotalRuns = 3, kTotalPasses = 100000, kMaxArraySizex2 = 4096\<rparr>"

definition kValuesToSumMax :: size_t where
  "kValuesToSumMax = 4"

definition kSlots :: size_t where
  "kSlots = 16"

text \<open>
  What the C++ library supplies is a parameter of the model: the \<open>k\<close>-th reading of
  \<open>sysclk::now()\<close> in ticks of the clock, \<open>duration_cast<units>\<close>, and
  \<open>std::ranges::nth_element\<close> on a list of durations (the list and the position \<open>nth\<close> go in,
  the reordered list comes out).

  \<open>nth_element_contract\<close> is what the library promises of \<open>nth_element\<close>: the result is a
  permutation of the input, no element before position \<open>nth\<close> is greater than the element
  at \<open>nth\<close>, and no element after it is smaller.
\<close>

record platform =
  sysclk_now :: "nat \<Rightarrow> int"
  duration_cast :: "int \<Rightarrow> units"
  nth_element :: "units list \<Rightarrow> nat \<Rightarrow> units list"

definition nth_element_post :: "'a::linorder list \<Rightarrow> nat \<Rightarrow> 'a list \<Rightarrow> bool" where
  "nth_element_post xs n ys \<longleftrightarrow>
     mset ys = mset xs \<and>
     (\<forall>x \<in> set (take n ys). \<not> ys ! n < x) \<and>
     (\<forall>x \<in> set (drop (Suc n) ys). \<not> x < ys ! n)"

definition nth_element_contract :: "('a::linorder list \<Rightarrow> nat \<Rightarrow> 'a list) \<Rightarrow> bool" where
  "nth_element_contract f \<longleftrightarrow> (\<forall>xs n. n < length xs \<longrightarrow> nth_element_post xs n (f xs n))"

section \<open>Conversion between array indices and sizes\<close>

text \<open>
  \<open>Exp2\<close> and \<open>Log2\<close> with their assertions.  \<open>has_single_bit\<close> is \<open>std::has_single_bit\<close>: the
  argument is a power of two.  \<open>Log2_loop\<close> is the loop \<^verbatim>\<open>while (powerOf2 >>= 1) ++result\<close>.
  \<open>sizeof\<close> gives the size in bytes of the unsigned integer type of the given width.
\<close>

definition Exp2 :: "size_t \<Rightarrow> error + size_t" where
  "Exp2 exponent =
     (if exponent < 64 then Inr (push_bit (unat exponent) 1) else Inl AssertionFailed)"

definition has_single_bit :: "size_t \<Rightarrow> bool" where
  "has_single_bit x \<longleftrightarrow> (\<exists>k \<in> set [0..<64]. x = 2 ^ k)"

function Log2_loop :: "size_t \<Rightarrow> size_t \<Rightarrow> size_t" where
  "Log2_loop powerOf2 result =
     (if drop_bit 1 powerOf2 \<noteq> 0 then Log2_loop (drop_bit 1 powerOf2) (result + 1)
      else result)"
  by pat_completeness auto
termination
proof (relation "measure (\<lambda>(p, r). unat p)")
  show "wf (measure (\<lambda>(p :: size_t, r :: size_t). unat p))" by simp
next
  fix powerOf2 result :: size_t
  assume nz: "drop_bit 1 powerOf2 \<noteq> 0"
  then have "powerOf2 \<noteq> 0" by auto
  then have "0 < unat powerOf2" by (simp add: unat_gt_0)
  then have "unat powerOf2 div 2 < unat powerOf2" by simp
  then show "((drop_bit 1 powerOf2, result + 1), (powerOf2, result))
               \<in> measure (\<lambda>(p, r). unat p)"
    by (simp add: drop_bit_eq_div unat_div)
qed

declare Log2_loop.simps [simp del]

definition Log2 :: "size_t \<Rightarrow> error + size_t" where
  "Log2 powerOf2 =
     (if has_single_bit powerOf2 then Inr (Log2_loop powerOf2 0) else Inl AssertionFailed)"

definition sizeof :: "'t::len itself \<Rightarrow> size_t" where
  "sizeof T = of_nat (LENGTH('t) div 8)"

definition kCountOfElemSizesToEval :: "error + size_t" where
  "kCountOfElemSizesToEval =
     (case Log2 (sizeof TYPE(64)) of Inl e \<Rightarrow> Inl e | Inr k \<Rightarrow> Inr (k + 1))"

definition kCountOfArraySizesToEval :: "config \<Rightarrow> error + size_t" where
  "kCountOfArraySizesToEval cfg = Log2 (kMaxArraySizex2 cfg)"

section \<open>Median\<close>

text \<open>
  \<open>GetMedian\<close> asserts an odd size, lets \<open>nth_element\<close> reorder the container around the
  middle position and returns the element found there.  The container is passed by
  reference, so the reordered container is part of the result.
\<close>

definition GetMedian :: "('a list \<Rightarrow> nat \<Rightarrow> 'a list) \<Rightarrow> 'a list \<Rightarrow> error + ('a list \<times> 'a)" where
  "GetMedian nth_el c =
     (if length c mod 2 = 1
      then let half = length c div 2;
               c' = nth_el c half
           in Inr (c', c' ! half)
      else Inl AssertionFailed)"

section \<open>Program state\<close>

text \<open>
  The global variables of the program: the generator \<open>rnd\<close>, the work buffer \<open>gWork\<close>, the
  two accumulator vectors and the timing table \<open>timingData\<close> (three arrays indexed by element
  size, array size and run).  Added to them are what the program does to its surroundings: the
  number of clock readings taken so far, and the lines written to \<open>std::cout\<close> (progress
  messages, and the data lines of the report with mode label, array size, element size and
  duration).  \<open>set_log\<close> is a history variable that the program does not have: the coordinates
  at which \<open>SetTimes\<close> has stored, in order.
\<close>

record FauxRand =
  next_state :: size_t

record TimingData =
  baselines :: "units list list list"
  byRefs :: "units list list list"
  byVals :: "units list list list"

datatype out_line =
    Progress string
  | RunNo nat
  | TimingMsg size_t size_t
  | DataLine string size_t size_t units

record globals =
  rnd :: FauxRand
  gWork :: "size_t list"
  arrByValSums :: "size_t list"
  arrByRefSums :: "size_t list"
  timingData :: TimingData
  clock_reads :: nat
  cout :: "out_line list"
  set_log :: "(nat \<times> nat \<times> nat) list"

section \<open>The generator \<open>FauxRand\<close>\<close>

text \<open>
  \<open>Seed\<close> and \<open>operator()\<close> of \<open>FauxRand\<close>: one multiplication and one addition on the state;
  the new state is the result.  \<open>calls n\<close> collects the results of \<open>n\<close> successive calls, and
  \<open>rnd_call\<close> is a call of the global generator \<open>rnd\<close>.
\<close>

definition Seed :: "size_t \<Rightarrow> FauxRand \<Rightarrow> FauxRand" where
  "Seed seed g = g\<lparr>next_state := seed\<rparr>"

definition FauxRand_call :: "FauxRand \<Rightarrow> size_t \<times> FauxRand" where
  "FauxRand_call g = (let n = next_state g * 214013 + 2531011 in (n, g\<lparr>next_state := n\<rparr>))"

fun calls :: "nat \<Rightarrow> FauxRand \<Rightarrow> size_t list \<times> FauxRand" where
  "calls 0 g = ([], g)"
| "calls (Suc n) g =
     (case FauxRand_call g of (x, g') \<Rightarrow>
        (case calls n g' of (xs, g'') \<Rightarrow> (x # xs, g'')))"

definition rnd_call :: "globals \<Rightarrow> size_t \<times> globals" where
  "rnd_call s = (case FauxRand_call (rnd s) of (x, g) \<Rightarrow> (x, s\<lparr>rnd := g\<rparr>))"

section \<open>Side work and the array under test\<close>

text \<open>
  \<open>RandomWork\<close> draws a slot and a value and adds \<open>random ^ (random << 1)\<close> to the slot.

  A \<open>RandArray<T, N>\<close> is the list of its \<open>N\<close> elements of type \<open>T\<close> (a word of the width of
  \<open>T\<close>); the functions on it take \<open>N\<close> as an argument.  The constructor fills the slots in
  order with \<open>static_cast<T>(rnd())\<close>.  \<open>ComputeValue\<close> draws the number of values to sum and
  then, in its loop, a slot for each of them.
\<close>

definition RandomWork :: "globals \<Rightarrow> error + globals" where
  "RandomWork s =
     (case rnd_call s of (r, s1) \<Rightarrow>
        let slot = r mod kSlots in
        (case rnd_call s1 of (random, s2) \<Rightarrow>
           if unat slot < length (gWork s2)
           then Inr (s2\<lparr>gWork := (gWork s2)[unat slot :=
                        gWork s2 ! unat slot + (random XOR push_bit 1 random)]\<rparr>)
           else Inl OutOfRange))"

fun RandArray_fill :: "nat \<Rightarrow> globals \<Rightarrow> 't::len word list \<times> globals" where
  "RandArray_fill 0 s = ([], s)"
| "RandArray_fill (Suc n) s =
     (case rnd_call s of (r, s1) \<Rightarrow>
        (case RandArray_fill n s1 of (xs, s2) \<Rightarrow> (ucast r # xs, s2)))"

definition RandArray_ctor :: "size_t \<Rightarrow> globals \<Rightarrow> 't::len word list \<times> globals" where
  "RandArray_ctor N s = RandArray_fill (unat N) s"

function ComputeValue_loop ::
  "size_t \<Rightarrow> 't::len word list \<Rightarrow> nat \<Rightarrow> nat \<Rightarrow> size_t \<Rightarrow> globals \<Rightarrow> error + (size_t \<times> globals)"
where
  "ComputeValue_loop N arr i numValuesToSum sum_acc s =
     (if i < numValuesToSum then
        (case rnd_call s of (r, s1) \<Rightarrow>
           if N = 0 then Inl DivisionByZero
           else let slot = r mod N in
             if unat slot < length arr
             then ComputeValue_loop N arr (i + 1) numValuesToSum
                    (sum_acc + ucast (arr ! unat slot)) s1
             else Inl OutOfRange)
      else Inr (sum_acc, s))"
  by pat_completeness auto
termination
  by (relation "measure (\<lambda>(N, arr, i, n, sum_acc, s). n - i)") auto

declare ComputeValue_loop.simps [simp del]

definition ComputeValue ::
  "size_t \<Rightarrow> 't::len word list \<Rightarrow> globals \<Rightarrow> error + (size_t \<times> globals)"
where
  "ComputeValue N arr s =
     (case rnd_call s of (r, s1) \<Rightarrow>
        let numValuesToSum = r mod kValuesToSumMax in
        ComputeValue_loop N arr 0 (unat numValuesToSum) 0 s1)"

section \<open>Functions to be timed\<close>

text \<open>
  \<open>ByVal\<close> and \<open>ByRef\<close> compute the same value; copying the array has no effect on the state.
  A \<open>Timer\<close> reads the clock when it is constructed and again in \<open>GetElapsedMs\<close>.
  \<open>passes_loop\<close> is the loop over \<open>kTotalPasses\<close> that the three timing functions share; the
  baseline runs \<open>RandomWork\<close> and \<open>ComputeValue\<close> inline and drops its sum, the other two push
  their sum to their accumulator vector after reading the timer.
\<close>

definition ByVal :: "size_t \<Rightarrow> 't::len word list \<Rightarrow> globals \<Rightarrow> error + (size_t \<times> globals)" where
  "ByVal N arr s = (case RandomWork s of Inl e \<Rightarrow> Inl e | Inr s1 \<Rightarrow> ComputeValue N arr s1)"

definition ByRef :: "size_t \<Rightarrow> 't::len word list \<Rightarrow> globals \<Rightarrow> error + (size_t \<times> globals)" where
  "ByRef N arr s = (case RandomWork s of Inl e \<Rightarrow> Inl e | Inr s1 \<Rightarrow> ComputeValue N arr s1)"

record Timer =
  start :: int

definition Timer_ctor :: "platform \<Rightarrow> globals \<Rightarrow> Timer \<times> globals" where
  "Timer_ctor pf s =
     (\<lparr>start = sysclk_now pf (clock_reads s)\<rparr>, s\<lparr>clock_reads := clock_reads s + 1\<rparr>)"

definition GetElapsedMs :: "platform \<Rightarrow> Timer \<Rightarrow> globals \<Rightarrow> units \<times> globals" where
  "GetElapsedMs pf timer s =
     (let end_time = sysclk_now pf (clock_reads s);
          duration = end_time - start timer
      in (duration_cast pf duration, s\<lparr>clock_reads := clock_reads s + 1\<rparr>))"

function passes_loop ::
  "(globals \<Rightarrow> error + (size_t \<times> globals)) \<Rightarrow> nat \<Rightarrow> nat \<Rightarrow> size_t \<Rightarrow> globals
     \<Rightarrow> error + (size_t \<times> globals)"
where
  "passes_loop body i passes sum_acc s =
     (if i < passes then
        (case body s of
           Inl e \<Rightarrow> Inl e
         | Inr (v, s1) \<Rightarrow> passes_loop body (i + 1) passes (sum_acc + v) s1)
      else Inr (sum_acc, s))"
  by pat_completeness auto
termination
  by (relation "measure (\<lambda>(body, i, n, sum_acc, s). n - i)") auto

declare passes_loop.simps [simp del]

definition TimeArrBaseline ::
  "platform \<Rightarrow> config \<Rightarrow> size_t \<Rightarrow> 't::len word list \<Rightarrow> globals \<Rightarrow> error + (units \<times> globals)"
where
  "TimeArrBaseline pf cfg N arr s =
     (case Timer_ctor pf s of (timer, s1) \<Rightarrow>
        (case passes_loop
                (\<lambda>s. case RandomWork s of Inl e \<Rightarrow> Inl e | Inr s' \<Rightarrow> ComputeValue N arr s')
                0 (unat (kTotalPasses cfg)) 0 s1 of
           Inl e \<Rightarrow> Inl e
         | Inr (sum_acc, s2) \<Rightarrow> Inr (GetElapsedMs pf timer s2)))"

definition TimeArrByVal ::
  "platform \<Rightarrow> config \<Rightarrow> size_t \<Rightarrow> 't::len word list \<Rightarrow> globals \<Rightarrow> error + (units \<times> globals)"
where
  "TimeArrByVal pf cfg N arr s =
     (case Timer_ctor pf s of (timer, s1) \<Rightarrow>
        (case passes_loop (ByVal N arr) 0 (unat (kTotalPasses cfg)) 0 s1 of
           Inl e \<Rightarrow> Inl e
         | Inr (sum_acc, s2) \<Rightarrow>
             (case GetElapsedMs pf timer s2 of (end_time, s3) \<Rightarrow>
                Inr (end_time, s3\<lparr>arrByValSums := arrByValSums s3 @ [sum_acc]\<rparr>))))"

definition TimeArrByRef ::
  "platform \<Rightarrow> config \<Rightarrow> size_t \<Rightarrow> 't::len word list \<Rightarrow> globals \<Rightarrow> error + (units \<times> globals)"
where
  "TimeArrByRef pf cfg N arr s =
     (case Timer_ctor pf s of (timer, s1) \<Rightarrow>
        (case passes_loop (ByRef N arr) 0 (unat (kTotalPasses cfg)) 0 s1 of
           Inl e \<Rightarrow> Inl e
         | Inr (sum_acc, s2) \<Rightarrow>
             (case GetElapsedMs pf timer s2 of (end_time, s3) \<Rightarrow>
                Inr (end_time, s3\<lparr>arrByRefSums := arrByRefSums s3 @ [sum_acc]\<rparr>))))"


section \<open>The timing table\<close>

text \<open>
  \<open>SetTimes\<close> stores the three durations of a trial at the indices \<open>Log2 (sizeof T)\<close>,
  \<open>Log2 arraySize\<close> and \<open>run\<close>.  \<open>store3\<close> and \<open>load2\<close> check the indices of an array access.

  \<open>Output\<close> gets one of the members \<open>byRefs_\<close> and \<open>byVals_\<close> by reference; \<open>member\<close> names it.
  \<open>Output_outer\<close> and \<open>Output_inner\<close> are its outer and its inner loop.  \<open>GetMedian\<close> reorders the cell it
  is given, so both the baseline cell and the cell of the member are written back.
\<close>

definition store3 ::
  "units list list list \<Rightarrow> nat \<Rightarrow> nat \<Rightarrow> nat \<Rightarrow> units \<Rightarrow> error + units list list list"
where
  "store3 t i j k v =
     (if i < length t \<and> j < length (t ! i) \<and> k < length (t ! i ! j)
      then Inr (t[i := (t ! i)[j := (t ! i ! j)[k := v]]])
      else Inl OutOfRange)"

definition SetTimes ::
  "'t::len itself \<Rightarrow> size_t \<Rightarrow> nat \<Rightarrow> units \<Rightarrow> units \<Rightarrow> units \<Rightarrow> globals \<Rightarrow> error + globals"
where
  "SetTimes T arraySize run baseline byRef byVal s =
     (case Log2 (sizeof T) of Inl e \<Rightarrow> Inl e | Inr elemSizeIdx \<Rightarrow>
      case Log2 arraySize of Inl e \<Rightarrow> Inl e | Inr arrSizeIdx \<Rightarrow>
      case store3 (baselines (timingData s)) (unat elemSizeIdx) (unat arrSizeIdx) run baseline of
        Inl e \<Rightarrow> Inl e | Inr b \<Rightarrow>
      case store3 (byRefs (timingData s)) (unat elemSizeIdx) (unat arrSizeIdx) run byRef of
        Inl e \<Rightarrow> Inl e | Inr r \<Rightarrow>
      case store3 (byVals (timingData s)) (unat elemSizeIdx) (unat arrSizeIdx) run byVal of
        Inl e \<Rightarrow> Inl e | Inr v \<Rightarrow>
      Inr (s\<lparr>timingData := \<lparr>baselines = b, byRefs = r, byVals = v\<rparr>,
              set_log := set_log s @ [(unat elemSizeIdx, unat arrSizeIdx, run)]\<rparr>))"

datatype member = ByRefs | ByVals

fun get_member :: "member \<Rightarrow> TimingData \<Rightarrow> units list list list" where
  "get_member ByRefs td = byRefs td"
| "get_member ByVals td = byVals td"

fun set_member :: "member \<Rightarrow> units list list list \<Rightarrow> TimingData \<Rightarrow> TimingData" where
  "set_member ByRefs t td = td\<lparr>byRefs := t\<rparr>"
| "set_member ByVals t td = td\<lparr>byVals := t\<rparr>"

definition load2 :: "units list list list \<Rightarrow> nat \<Rightarrow> nat \<Rightarrow> error + units list" where
  "load2 t i j = (if i < length t \<and> j < length (t ! i) then Inr (t ! i ! j) else Inl OutOfRange)"

definition store2 :: "units list list list \<Rightarrow> nat \<Rightarrow> nat \<Rightarrow> units list \<Rightarrow> units list list list" where
  "store2 t i j c = t[i := (t ! i)[j := c]]"

function Output_inner ::
  "platform \<Rightarrow> member \<Rightarrow> string \<Rightarrow> size_t \<Rightarrow> nat \<Rightarrow> nat \<Rightarrow> nat \<Rightarrow> globals \<Rightarrow> error + globals"
where
  "Output_inner pf c hdr elemSize elemSizeIdx arrSizeIdx arrCount s =
     (if arrSizeIdx < arrCount then
        (case load2 (baselines (timingData s)) elemSizeIdx arrSizeIdx of
           Inl e \<Rightarrow> Inl e | Inr bcell \<Rightarrow>
         case GetMedian (nth_element pf) bcell of
           Inl e \<Rightarrow> Inl e | Inr (bcell', baseline) \<Rightarrow>
         let td1 = (timingData s)\<lparr>baselines :=
                     store2 (baselines (timingData s)) elemSizeIdx arrSizeIdx bcell'\<rparr> in
         case load2 (get_member c td1) elemSizeIdx arrSizeIdx of
           Inl e \<Rightarrow> Inl e | Inr ccell \<Rightarrow>
         case GetMedian (nth_element pf) ccell of
           Inl e \<Rightarrow> Inl e | Inr (ccell', time) \<Rightarrow>
         let td2 = set_member c (store2 (get_member c td1) elemSizeIdx arrSizeIdx ccell') td1 in
         case Exp2 (of_nat arrSizeIdx) of
           Inl e \<Rightarrow> Inl e | Inr arrSize \<Rightarrow>
         Output_inner pf c hdr elemSize elemSizeIdx (arrSizeIdx + 1) arrCount
           (s\<lparr>timingData := td2,
              cout := cout s @ [DataLine hdr arrSize elemSize (time - baseline)]\<rparr>))
      else Inr s)"
  by pat_completeness auto
termination
  by (relation "measure (\<lambda>(pf, c, hdr, es, e, a, n, s). n - a)") auto

declare Output_inner.simps [simp del]

function Output_outer ::
  "platform \<Rightarrow> member \<Rightarrow> string \<Rightarrow> nat \<Rightarrow> nat \<Rightarrow> nat \<Rightarrow> globals \<Rightarrow> error + globals"
where
  "Output_outer pf c hdr elemSizeIdx elemCount arrCount s =
     (if elemSizeIdx < elemCount then
        (case Exp2 (of_nat elemSizeIdx) of
           Inl e \<Rightarrow> Inl e | Inr elemSize \<Rightarrow>
         case Output_inner pf c hdr elemSize elemSizeIdx 0 arrCount s of
           Inl e \<Rightarrow> Inl e | Inr s' \<Rightarrow>
         Output_outer pf c hdr (elemSizeIdx + 1) elemCount arrCount s')
      else Inr s)"
  by pat_completeness auto
termination
  by (relation "measure (\<lambda>(pf, c, hdr, e, n, m, s). n - e)") auto

declare Output_outer.simps [simp del]

definition Output :: "platform \<Rightarrow> config \<Rightarrow> member \<Rightarrow> string \<Rightarrow> globals \<Rightarrow> error + globals" where
  "Output pf cfg c hdr s =
     (case kCountOfElemSizesToEval of Inl e \<Rightarrow> Inl e | Inr elemCount \<Rightarrow>
      case kCountOfArraySizesToEval cfg of Inl e \<Rightarrow> Inl e | Inr arrCount \<Rightarrow>
      Output_outer pf c hdr 0 (unat elemCount) (unat arrCount) s)"

definition OutputResults :: "platform \<Rightarrow> config \<Rightarrow> globals \<Rightarrow> error + globals" where
  "OutputResults pf cfg s =
     (case Output pf cfg ByRefs ''by ref'' s of
        Inl e \<Rightarrow> Inl e
      | Inr s' \<Rightarrow> Output pf cfg ByVals ''by val'' s')"

section \<open>The evaluation driver\<close>

text \<open>
  \<open>EvalParamPassing<T, MaxArrSize, ArrSize>::Eval\<close>: one step builds the array, times the three
  variants and records them; it recurs with the doubled size until the size equals
  \<open>MaxArrSize\<close>.  Nothing in the source bounds this recursion, so \<open>Eval\<close> is a partial function
  and \<open>None\<close> stands for a recursion that does not end.

  \<open>main\<close> checks the static assertion, runs \<open>kTotalRuns\<close> rounds over the four element types,
  prints the report and returns \<open>static_cast<int>\<close> of the sum of the front elements of the two
  accumulator vectors.  The global arrays start zero-initialised and the generator with the
  seed 42.
\<close>

definition Eval_body ::
  "'t::len itself \<Rightarrow> platform \<Rightarrow> config \<Rightarrow> size_t \<Rightarrow> nat \<Rightarrow> globals \<Rightarrow> error + globals"
where
  "Eval_body T pf cfg ArrSize run s =
     (case (RandArray_ctor ArrSize s :: 't word list \<times> globals) of (arr, s0) \<Rightarrow>
      let s1 = s0\<lparr>cout := cout s0 @ [TimingMsg ArrSize (sizeof T)]\<rparr> in
      case TimeArrBaseline pf cfg ArrSize arr s1 of Inl e \<Rightarrow> Inl e | Inr (baseline, s2) \<Rightarrow>
      case TimeArrByRef pf cfg ArrSize arr s2 of Inl e \<Rightarrow> Inl e | Inr (byRef, s3) \<Rightarrow>
      case TimeArrByVal pf cfg ArrSize arr s3 of Inl e \<Rightarrow> Inl e | Inr (byVal, s4) \<Rightarrow>
      SetTimes T ArrSize run baseline byRef byVal s4)"

partial_function (option) Eval ::
  "'t::len itself \<Rightarrow> platform \<Rightarrow> config \<Rightarrow> size_t \<Rightarrow> nat \<Rightarrow> globals \<Rightarrow> (error + globals) option"
where
  "Eval T pf cfg ArrSize run s =
     (if ArrSize = kMaxArraySizex2 cfg then Some (Inr s)
      else (case Eval_body T pf cfg ArrSize run s of
              Inl e \<Rightarrow> Some (Inl e)
            | Inr s' \<Rightarrow> Eval T pf cfg (ArrSize * 2) run s'))"

definition then_Eval ::
  "(error + globals) option \<Rightarrow> (globals \<Rightarrow> (error + globals) option) \<Rightarrow> (error + globals) option"
where
  "then_Eval r f = (case r of None \<Rightarrow> None | Some (Inl e) \<Rightarrow> Some (Inl e) | Some (Inr s) \<Rightarrow> f s)"

definition run_body :: "platform \<Rightarrow> config \<Rightarrow> nat \<Rightarrow> globals \<Rightarrow> (error + globals) option" where
  "run_body pf cfg run s =
     then_Eval (then_Eval (then_Eval
       (Eval TYPE(8) pf cfg 1 run (s\<lparr>cout := cout s @ [RunNo run]\<rparr>))
       (Eval TYPE(16) pf cfg 1 run))
       (Eval TYPE(32) pf cfg 1 run))
       (Eval TYPE(64) pf cfg 1 run)"

function main_loop :: "platform \<Rightarrow> config \<Rightarrow> nat \<Rightarrow> globals \<Rightarrow> (error + globals) option" where
  "main_loop pf cfg run s =
     (if run < unat (kTotalRuns cfg) then
        (case run_body pf cfg run s of
           None \<Rightarrow> None
         | Some (Inl e) \<Rightarrow> Some (Inl e)
         | Some (Inr s') \<Rightarrow> main_loop pf cfg (run + 1) s')
      else Some (Inr s))"
  by pat_completeness auto
termination
  by (relation "measure (\<lambda>(pf, cfg, run, s). unat (kTotalRuns cfg) - run)") auto

declare main_loop.simps [simp del]

definition static_cast_int :: "size_t \<Rightarrow> int" where
  "static_cast_int x = sint (ucast x :: 32 word)"

definition initial_globals :: "nat \<Rightarrow> nat \<Rightarrow> nat \<Rightarrow> globals" where
  "initial_globals elemCount arrCount runs =
     \<lparr>rnd = \<lparr>next_state = 42\<rparr>,
      gWork = replicate (unat kSlots) 0,
      arrByValSums = [],
      arrByRefSums = [],
      timingData = \<lparr>baselines = replicate elemCount (replicate arrCount (replicate runs 0)),
                    byRefs = replicate elemCount (replicate arrCount (replicate runs 0)),
                    byVals = replicate elemCount (replicate arrCount (replicate runs 0))\<rparr>,
      clock_reads = 0,
      cout = [],
      set_log = []\<rparr>"

definition main :: "platform \<Rightarrow> config \<Rightarrow> (error + int \<times> globals) option" where
  "main pf cfg =
     (if kTotalRuns cfg mod 2 \<noteq> 1 then Some (Inl StaticAssertFailed)
      else
        case kCountOfElemSizesToEval of Inl e \<Rightarrow> Some (Inl e) | Inr elemCount \<Rightarrow>
        case kCountOfArraySizesToEval cfg of Inl e \<Rightarrow> Some (Inl e) | Inr arrCount \<Rightarrow>
        let s0 = initial_globals (unat elemCount) (unat arrCount) (unat (kTotalRuns cfg));
            s1 = s0\<lparr>cout := cout s0 @ [Progress ''Running timing evaluation'']\<rparr>
        in case main_loop pf cfg 0 s1 of
             None \<Rightarrow> None
           | Some (Inl e) \<Rightarrow> Some (Inl e)
           | Some (Inr s2) \<Rightarrow>
               let s3 = s2\<lparr>cout := cout s2 @
                          [Progress ''Param Pass Type, Array Size, sizeof(T), Time'']\<rparr>
               in case OutputResults pf cfg s3 of
                    Inl e \<Rightarrow> Some (Inl e)
                  | Inr s4 \<Rightarrow>
                      if arrByValSums s4 = [] \<or> arrByRefSums s4 = [] then Some (Inl OutOfRange)
                      else Some (Inr (static_cast_int
                                        (hd (arrByValSums s4) + hd (arrByRefSums s4)), s4)))"

section \<open>Reference notions used in the statements\<close>

text \<open>The median of the claims: the middle element of the fully sorted collection.\<close>

definition median :: "'a::linorder list \<Rightarrow> 'a" where
  "median c = sort c ! (length c div 2)"

text \<open>
  The shape that the type \<open>std::array<std::array<std::array<units, R>, A>, E>\<close> gives a
  table, and tables that agree up to the order of the samples inside each cell.
\<close>

definition table_dims :: "nat \<Rightarrow> nat \<Rightarrow> nat \<Rightarrow> units list list list \<Rightarrow> bool" where
  "table_dims E A R t \<longleftrightarrow>
     length t = E \<and> (\<forall>row \<in> set t. length row = A \<and> (\<forall>cell \<in> set row. length cell = R))"

definition td_dims :: "nat \<Rightarrow> nat \<Rightarrow> nat \<Rightarrow> TimingData \<Rightarrow> bool" where
  "td_dims E A R td \<longleftrightarrow>
     table_dims E A R (baselines td) \<and> table_dims E A R (byRefs td) \<and> table_dims E A R (byVals td)"

definition same_cells :: "units list list list \<Rightarrow> units list list list \<Rightarrow> bool" where
  "same_cells t t' \<longleftrightarrow> list_all2 (list_all2 (\<lambda>c c'. mset c = mset c')) t t'"

definition td_same :: "TimingData \<Rightarrow> TimingData \<Rightarrow> bool" where
  "td_same td td' \<longleftrightarrow>
     same_cells (baselines td) (baselines td') \<and> same_cells (byRefs td) (byRefs td')
       \<and> same_cells (byVals td) (byVals td')"

text \<open>
  The data line the report is expected to hold for one coordinate: mode label, array size,
  element size in bytes, and median of the mode's cell minus median of the baseline cell.
\<close>

definition report_line :: "string \<Rightarrow> member \<Rightarrow> TimingData \<Rightarrow> nat \<Rightarrow> nat \<Rightarrow> out_line" where
  "report_line hdr c td e a =
     DataLine hdr (2 ^ a) (2 ^ e)
       (median (get_member c td ! e ! a) - median (baselines td ! e ! a))"

text \<open>
  The coordinate (element size, array size) printed on a data line, and the order
  "ascending element size, then ascending array size".
\<close>

fun line_key :: "out_line \<Rightarrow> size_t \<times> size_t" where
  "line_key (DataLine hdr arrSize elemSize t) = (elemSize, arrSize)"
| "line_key _ = (0, 0)"

definition key_less :: "size_t \<times> size_t \<Rightarrow> size_t \<times> size_t \<Rightarrow> bool" where
  "key_less k k' \<longleftrightarrow> fst k < fst k' \<or> (fst k = fst k' \<and> snd k < snd k')"

text \<open>Whether every data line of an output carries a non-negative duration.\<close>

fun nonneg_line :: "out_line \<Rightarrow> bool" where
  "nonneg_line (DataLine hdr arrSize elemSize t) \<longleftrightarrow> 0 \<le> t"
| "nonneg_line _ \<longleftrightarrow> True"

section \<open>Concrete inputs for the examples\<close>

text \<open>
  A selection algorithm in the style of quickselect: it partitions around the first element
  and continues in the part that holds position \<open>n\<close>.  It reorders no more than it must and
  serves as a concrete \<open>nth_element\<close>.
\<close>

fun quickselect :: "'a::linorder list \<Rightarrow> nat \<Rightarrow> 'a list" where
  "quickselect [] n = []"
| "quickselect (p # xs) n =
     (if n < length (filter (\<lambda>x. x < p) xs)
      then quickselect (filter (\<lambda>x. x < p) xs) n @ p # filter (\<lambda>x. \<not> x < p) xs
      else if n = length (filter (\<lambda>x. x < p) xs)
      then filter (\<lambda>x. x < p) xs @ p # filter (\<lambda>x. \<not> x < p) xs
      else filter (\<lambda>x. x < p) xs @ p #
             quickselect (filter (\<lambda>x. \<not> x < p) xs) (n - Suc (length (filter (\<lambda>x. x < p) xs))))"

text \<open>
  A platform whose clock advances by 1.5 ms per reading (in nanosecond ticks), whose
  \<open>duration_cast\<close> truncates to milliseconds, and whose \<open>nth_element\<close> is \<open>quickselect\<close>;
  and a state of the debug configuration whose table holds, in every cell, baseline samples
  7, 5, 6, by-reference samples 4, 6, 5 and by-value samples 9, 8, 7.
\<close>

definition example_platform :: platform where
  "example_platform =
     \<lparr>sysclk_now = (\<lambda>k. 1500000 * int k),
      duration_cast = (\<lambda>d. sgn d * (\<bar>d\<bar> div 1000000)),
      nth_element = quickselect\<rparr>"

definition example_state :: globals where
  "example_state =
     (initial_globals 4 12 3)
       \<lparr>timingData := \<lparr>baselines = replicate 4 (replicate 12 [7, 5, 6]),
                       byRefs = replicate 4 (replicate 12 [4, 6, 5]),
                       byVals = replicate 4 (replicate 12 [9, 8, 7])\<rparr>\<rparr>"

section \<open>Notions used for the driver\<close>

text \<open>
  A loop body that, on a state with a work buffer of \<open>kSlots\<close> entries, returns a value and
  changes nothing but the generator and the contents of the work buffer.
\<close>

definition work_step :: "(globals \<Rightarrow> error + (size_t \<times> globals)) \<Rightarrow> bool" where
  "work_step body \<longleftrightarrow>
     (\<forall>s. length (gWork s) = unat kSlots \<longrightarrow>
        (\<exists>v g w. body s = Inr (v, s\<lparr>rnd := g, gWork := w\<rparr>) \<and> length w = unat kSlots))"

text \<open>
  What the driver keeps true between trials, and how a later state extends an earlier one:
  the two accumulator vectors only grow at the back.
\<close>

definition driver_inv :: "nat \<Rightarrow> nat \<Rightarrow> globals \<Rightarrow> bool" where
  "driver_inv A R s \<longleftrightarrow> length (gWork s) = unat kSlots \<and> td_dims 4 A R (timingData s)"

definition sums_extend :: "globals \<Rightarrow> globals \<Rightarrow> bool" where
  "sums_extend s s' \<longleftrightarrow>
     (\<exists>vs. arrByValSums s' = arrByValSums s @ vs) \<and> (\<exists>rs. arrByRefSums s' = arrByRefSums s @ rs)"

text \<open>
  The duration a \<open>Timer\<close> reports when it is started at the \<open>k\<close>-th reading of the clock and
  read at the next one.  A timed trial takes six readings; the table agrees with the history of
  \<open>SetTimes\<close> when the \<open>i\<close>-th logged coordinate holds, in the three series, the durations of
  the \<open>i\<close>-th trial (readings \<open>6 i\<close> to \<open>6 i + 5\<close>).
\<close>

definition elapsed :: "platform \<Rightarrow> nat \<Rightarrow> units" where
  "elapsed pf k = duration_cast pf (sysclk_now pf (Suc k) - sysclk_now pf k)"

definition table_log_inv :: "platform \<Rightarrow> globals \<Rightarrow> bool" where
  "table_log_inv pf s \<longleftrightarrow>
     clock_reads s = 6 * length (set_log s) \<and>
     (\<forall>i < length (set_log s).
        case set_log s ! i of (e, a, r) \<Rightarrow>
          baselines (timingData s) ! e ! a ! r = elapsed pf (6 * i) \<and>
          byRefs (timingData s) ! e ! a ! r = elapsed pf (6 * i + 2) \<and>
          byVals (timingData s) ! e ! a ! r = elapsed pf (6 * i + 4))"

text \<open>
  The very first timed trial of a run of \<open>main\<close>: run 0, element type \<open>uint8_t\<close>, array
  size 1, started in the state that \<open>main\<close> has built when it enters the first \<open>Eval\<close>
  (\<open>m\<close> is the number of array sizes, \<open>Log2 kMaxArraySizex2\<close>).
\<close>

definition first_trial :: "platform \<Rightarrow> config \<Rightarrow> nat \<Rightarrow> error + globals" where
  "first_trial pf cfg m =
     Eval_body TYPE(8) pf cfg 1 0
       ((initial_globals 4 m (unat (kTotalRuns cfg)))
          \<lparr>cout := [Progress ''Running timing evaluation'', RunNo 0]\<rparr>)"

section \<open>Properties of the generator\<close>

lemma upt_0_Suc_map: "[0..<Suc n] = 0 # map Suc [0..<n]"
  by (simp only: upt_conv_Cons[OF zero_less_Suc] map_Suc_upt)

lemma calls_iter:
  "calls n g = (map (\<lambda>k. ((\<lambda>x. x * 214013 + 2531011) ^^ Suc k) (next_state g)) [0..<n],
                g\<lparr>next_state := ((\<lambda>x. x * 214013 + 2531011) ^^ n) (next_state g)\<rparr>)"
proof (induction n arbitrary: g)
  case 0
  show ?case by simp
next
  case (Suc n)
  let ?f = "\<lambda>x :: size_t. x * 214013 + 2531011"
  have sw: "\<And>k x. (?f ^^ k) (?f x) = (?f ^^ Suc k) x"
    by (simp only: funpow_Suc_right o_apply)
  have "map (\<lambda>k. (?f ^^ Suc k) (next_state g)) [0..<Suc n]
        = ?f (next_state g) # map (\<lambda>k. (?f ^^ Suc k) (?f (next_state g))) [0..<n]"
    by (simp only: upt_0_Suc_map list.map map_map o_def sw) simp
  then show ?case
    by (simp add: FauxRand_call_def Let_def Suc.IH sw del: upt_Suc funpow.simps)
qed

text \<open>
  C3.  After \<open>Seed S\<close>, the \<open>k\<close>-th call of \<open>operator()\<close> returns the \<open>k\<close>-th iterate of
  \<open>next = next * 214013 + 2531011\<close> (in wrapping 64-bit arithmetic) started at \<open>S\<close>, and the
  state after \<open>n\<close> calls is the \<open>n\<close>-th iterate.  Hence two runs of "seed with \<open>S\<close>, then
  \<open>n\<close> calls" give the same output sequence, whatever the generators held before.
\<close>

theorem FauxRand_deterministic:
  "calls n (Seed S g) =
     (map (\<lambda>k. ((\<lambda>x. x * 214013 + 2531011) ^^ Suc k) S) [0..<n],
      \<lparr>next_state = ((\<lambda>x. x * 214013 + 2531011) ^^ n) S\<rparr>)
   \<and> length (fst (calls n (Seed S g))) = n
   \<and> calls n (Seed S g) = calls n (Seed S g')"
  by (simp add: calls_iter Seed_def del: funpow.simps)

section \<open>Side work and the sum over the array\<close>

lemma unat_mod_less_length:
  fixes N :: size_t
  assumes "N \<noteq> 0" "length arr = unat N"
  shows "unat (r mod N) < length arr"
proof -
  have "0 < unat N" using assms(1) by (simp add: unat_gt_0)
  then show ?thesis using assms(2) by (simp add: unat_mod)
qed

lemma length_calls: "length (fst (calls n g)) = n"
proof (induction n arbitrary: g)
  case 0
  show ?case by simp
next
  case (Suc n)
  obtain x g' where 1: "FauxRand_call g = (x, g')" by (cases "FauxRand_call g")
  obtain xs g'' where 2: "calls n g' = (xs, g'')" by (cases "calls n g'")
  have "length xs = n" using Suc.IH[of g'] 2 by simp
  then show ?case by (simp add: 1 2)
qed

lemma calls_Suc_0:
  "calls (Suc 0) g = (case FauxRand_call g of (x, g') \<Rightarrow> ([x], g'))"
  by (simp split: prod.splits)

lemma calls_2:
  "calls 2 g = (case FauxRand_call g of (x, g') \<Rightarrow>
                  (case FauxRand_call g' of (y, g'') \<Rightarrow> ([x, y], g'')))"
  by (simp add: numeral_2_eq_2 split: prod.splits)

lemma unat_kSlots: "unat kSlots = 16"
  by (simp add: kSlots_def)

lemma unat_kValuesToSumMax: "unat kValuesToSumMax = 4"
  by (simp add: kValuesToSumMax_def)

lemma RandomWork_eq:
  assumes len: "length (gWork s) = unat kSlots"
    and c: "calls 2 (rnd s) = ([d1, v], g')"
  shows "RandomWork s =
           Inr (s\<lparr>rnd := g',
                  gWork := (gWork s)[unat (d1 mod kSlots) :=
                             gWork s ! unat (d1 mod kSlots) + (v XOR push_bit 1 v)]\<rparr>)"
proof -
  have "kSlots \<noteq> 0" by (simp add: kSlots_def)
  then have b: "unat (d1 mod kSlots) < length (gWork s)"
    using len by (rule unat_mod_less_length)
  obtain g1 where 1: "FauxRand_call (rnd s) = (d1, g1)" and 2: "FauxRand_call g1 = (v, g')"
    using c by (auto simp: calls_2 split: prod.splits)
  show ?thesis
    using b by (simp add: RandomWork_def rnd_call_def 1 2 Let_def)
qed

lemma ComputeValue_loop_eq:
  assumes "N \<noteq> 0" "length arr = unat N" "i \<le> n"
  shows "ComputeValue_loop N arr i n sum_acc s =
     Inr (sum_acc + sum_list (map (\<lambda>x. ucast (arr ! unat (x mod N))) (fst (calls (n - i) (rnd s)))),
          s\<lparr>rnd := snd (calls (n - i) (rnd s))\<rparr>)"
  using assms(3)
proof (induction d \<equiv> "n - i" arbitrary: i sum_acc s)
  case 0
  then have "\<not> i < n" "n - i = 0" by simp_all
  then show ?case by (subst ComputeValue_loop.simps) simp
next
  case (Suc d)
  obtain r g1 where fc: "FauxRand_call (rnd s) = (r, g1)" by (cases "FauxRand_call (rnd s)")
  obtain xs g2 where cs: "calls d g1 = (xs, g2)" by (cases "calls d g1")
  have lt: "i < n" and d: "d = n - (i + 1)" and nn: "n - i = Suc d"
    using Suc.hyps(2) by simp_all
  have d': "n - Suc i = d" using d by simp
  have b: "unat (r mod N) < length arr"
    using assms(1,2) by (rule unat_mod_less_length)
  have step: "ComputeValue_loop N arr i n sum_acc s =
      ComputeValue_loop N arr (i + 1) n (sum_acc + ucast (arr ! unat (r mod N))) (s\<lparr>rnd := g1\<rparr>)"
    by (subst ComputeValue_loop.simps) (simp add: lt b assms(1) rnd_call_def fc Let_def)
  have ih: "ComputeValue_loop N arr (i + 1) n (sum_acc + ucast (arr ! unat (r mod N))) (s\<lparr>rnd := g1\<rparr>) =
     Inr (sum_acc + ucast (arr ! unat (r mod N)) + sum_list (map (\<lambda>x. ucast (arr ! unat (x mod N))) xs),
          s\<lparr>rnd := g2\<rparr>)"
    using Suc.hyps(1)[OF d, of "sum_acc + ucast (arr ! unat (r mod N))" "s\<lparr>rnd := g1\<rparr>"] lt
    by (simp add: d' cs)
  show ?case
    by (simp only: step ih nn) (simp add: fc cs add.assoc)
qed

lemma ComputeValue_eq:
  assumes N: "N \<noteq> 0" "length arr = unat N"
    and c: "FauxRand_call (rnd s) = (c, g1)"
    and sl: "calls (unat (c mod kValuesToSumMax)) g1 = (slots, g2)"
  shows "ComputeValue N arr s =
           Inr (sum_list (map (\<lambda>x. ucast (arr ! unat (x mod N))) slots), s\<lparr>rnd := g2\<rparr>)"
  by (simp add: ComputeValue_def rnd_call_def c Let_def ComputeValue_loop_eq[OF N] sl)

text \<open>
  C4.  On a work buffer of \<open>kSlots\<close> entries, with \<open>d1\<close> and \<open>v\<close> the next two results of the
  generator: \<open>RandomWork\<close> adds \<open>v XOR (v << 1)\<close> to the entry at index \<open>d1 mod kSlots\<close>, which
  is below \<open>kSlots\<close>; every other entry and every other part of the state stays as it was,
  and the generator is left as after exactly these two calls.
\<close>

theorem RandomWork_effect:
  assumes "length (gWork s) = unat kSlots"
    and "calls 2 (rnd s) = ([d1, v], g')"
  shows "unat (d1 mod kSlots) < unat kSlots
       \<and> RandomWork s =
           Inr (s\<lparr>rnd := g',
                  gWork := (gWork s)[unat (d1 mod kSlots) :=
                             gWork s ! unat (d1 mod kSlots) + (v XOR push_bit 1 v)]\<rparr>)
       \<and> (\<forall>s'. RandomWork s = Inr s' \<longrightarrow>
             length (gWork s') = length (gWork s) \<and>
             (\<forall>j. j \<noteq> unat (d1 mod kSlots) \<longrightarrow> gWork s' ! j = gWork s ! j))"
proof -
  have "kSlots \<noteq> 0" by (simp add: kSlots_def)
  then have b: "unat (d1 mod kSlots) < length (gWork s)"
    using assms(1) by (rule unat_mod_less_length)
  show ?thesis
    using b assms(1) by (simp add: RandomWork_eq[OF assms])
qed

theorem RandomWork_effect_witness:
  "length (gWork (initial_globals 4 12 3)) = unat kSlots
   \<and> calls 2 (rnd (initial_globals 4 12 3)) = ([11519557, 2465337483252], \<lparr>next_state = 2465337483252\<rparr>)
   \<and> unat ((11519557 :: size_t) mod kSlots) = 5
   \<and> RandomWork (initial_globals 4 12 3) =
       Inr ((initial_globals 4 12 3)\<lparr>rnd := \<lparr>next_state = 2465337483252\<rparr>,
              gWork := (replicate 16 0)[5 := 6880582803484]\<rparr>)"
proof -
  have 1: "length (gWork (initial_globals 4 12 3)) = unat kSlots"
    by (simp add: initial_globals_def)
  have 2: "calls 2 (rnd (initial_globals 4 12 3)) =
             ([11519557, 2465337483252], \<lparr>next_state = 2465337483252\<rparr>)"
    by (simp add: initial_globals_def calls_2 FauxRand_call_def)
  have 3: "unat ((11519557 :: size_t) mod kSlots) = 5"
    by (simp add: kSlots_def unat_mod)
  have 4: "gWork (initial_globals 4 12 3) = replicate 16 0"
    by (simp add: initial_globals_def kSlots_def)
  show ?thesis
    using RandomWork_effect[OF 1 2] 1 2 3 4 by simp
qed

text \<open>
  C2.  For an array of \<open>N \<ge> 1\<close> elements of any width and any state: with \<open>c\<close> the next result
  of the generator, \<open>ComputeValue\<close> makes \<open>c mod kValuesToSumMax\<close> further calls, reads for each
  result \<open>x\<close> the element at index \<open>x mod N\<close>, and returns the sum of these elements, each
  widened to \<open>size_t\<close>.  The number of elements read is below \<open>kValuesToSumMax = 4\<close> whatever
  \<open>N\<close> is, every index is inside the array, and only the generator changes.
\<close>

theorem ComputeValue_sums_few_slots:
  assumes "N \<noteq> 0" and "length arr = unat N"
    and "FauxRand_call (rnd s) = (c, g1)"
    and "calls (unat (c mod kValuesToSumMax)) g1 = (slots, g2)"
  shows "ComputeValue N arr s =
           Inr (sum_list (map (\<lambda>x. ucast (arr ! unat (x mod N))) slots), s\<lparr>rnd := g2\<rparr>)
       \<and> length slots = unat (c mod kValuesToSumMax)
       \<and> length slots < unat kValuesToSumMax
       \<and> unat kValuesToSumMax = 4
       \<and> (\<forall>x \<in> set slots. unat (x mod N) < length arr)"
proof -
  have l: "length slots = unat (c mod kValuesToSumMax)"
    using length_calls[of "unat (c mod kValuesToSumMax)" g1] assms(4) by simp
  have "kValuesToSumMax \<noteq> 0" by (simp add: kValuesToSumMax_def)
  then have "unat (c mod kValuesToSumMax) < unat kValuesToSumMax"
    by (simp add: unat_mod unat_gt_0)
  then show ?thesis
    using l unat_mod_less_length[OF assms(1,2)]
    by (simp add: ComputeValue_eq[OF assms] unat_kValuesToSumMax)
qed

theorem ComputeValue_sums_few_slots_witness:
  "(4 :: size_t) \<noteq> 0 \<and> length [10, 20, 30, 40 :: 16 word] = unat (4 :: size_t)
   \<and> FauxRand_call \<lparr>next_state = 0\<rparr> = (2531011, \<lparr>next_state = 2531011\<rparr>)
   \<and> unat ((2531011 :: size_t) mod kValuesToSumMax) = 3
   \<and> ComputeValue 4 [10, 20, 30, 40 :: 16 word]
         ((initial_globals 4 12 3)\<lparr>rnd := \<lparr>next_state = 0\<rparr>\<rparr>) =
       Inr (60, (initial_globals 4 12 3)\<lparr>rnd := \<lparr>next_state = 16991129148439470276\<rparr>\<rparr>)"
proof -
  let ?s = "(initial_globals 4 12 3)\<lparr>rnd := \<lparr>next_state = 0\<rparr>\<rparr>"
  have 1: "(4 :: size_t) \<noteq> 0" by simp
  have 2: "length [10, 20, 30, 40 :: 16 word] = unat (4 :: size_t)" by simp
  have 3: "FauxRand_call (rnd ?s) = (2531011, \<lparr>next_state = 2531011\<rparr>)"
    by (simp add: FauxRand_call_def)
  have m: "unat ((2531011 :: size_t) mod kValuesToSumMax) = 3"
    by (simp add: kValuesToSumMax_def unat_mod)
  have 4: "calls (unat ((2531011 :: size_t) mod kValuesToSumMax)) \<lparr>next_state = 2531011\<rparr> =
             ([541671788154, 115924804400733013, 16991129148439470276],
              \<lparr>next_state = 16991129148439470276\<rparr>)"
    unfolding m by (simp add: numeral_3_eq_3 FauxRand_call_def)
  show ?thesis
    using ComputeValue_sums_few_slots[OF 1 2 3 4] 1 2 3 m
    by (simp add: unat_mod)
qed

text \<open>
  C10.  An index reduced modulo \<open>kSlots\<close> is below \<open>kSlots\<close>, and an index reduced modulo
  \<open>N \<ge> 1\<close> is inside an array of \<open>N\<close> elements.  So, for every state of the generator,
  \<open>RandomWork\<close> and \<open>ComputeValue\<close> return a result and never the error of an access out of
  range.
\<close>

theorem array_accesses_in_bounds:
  "(\<forall>x. unat (x mod kSlots) < unat kSlots)
   \<and> (length (gWork s) = unat kSlots \<longrightarrow> (\<exists>s'. RandomWork s = Inr s'))
   \<and> (N \<noteq> 0 \<and> length arr = unat N \<longrightarrow>
        (\<forall>x. unat (x mod N) < length arr) \<and> (\<exists>v s'. ComputeValue N arr s = Inr (v, s')))"
proof -
  have k: "kSlots \<noteq> 0" by (simp add: kSlots_def)
  have a: "\<forall>x. unat (x mod kSlots) < unat kSlots"
    using k by (simp add: unat_mod unat_gt_0)
  have b: "\<exists>s'. RandomWork s = Inr s'" if len: "length (gWork s) = unat kSlots"
  proof -
    obtain d1 g1 where 1: "FauxRand_call (rnd s) = (d1, g1)" by (cases "FauxRand_call (rnd s)")
    obtain v g' where 2: "FauxRand_call g1 = (v, g')" by (cases "FauxRand_call g1")
    have "calls 2 (rnd s) = ([d1, v], g')" by (simp add: calls_2 1 2)
    from RandomWork_eq[OF len this] show ?thesis by blast
  qed
  have c: "(\<forall>x. unat (x mod N) < length arr) \<and> (\<exists>v s'. ComputeValue N arr s = Inr (v, s'))"
    if N: "N \<noteq> 0" "length arr = unat N"
  proof -
    obtain c g1 where 1: "FauxRand_call (rnd s) = (c, g1)" by (cases "FauxRand_call (rnd s)")
    obtain slots g2 where 2: "calls (unat (c mod kValuesToSumMax)) g1 = (slots, g2)"
      by (cases "calls (unat (c mod kValuesToSumMax)) g1")
    from ComputeValue_eq[OF N 1 2] unat_mod_less_length[OF N] show ?thesis by blast
  qed
  from a b c show ?thesis by blast
qed

theorem array_accesses_in_bounds_witness:
  "(\<forall>x. unat (x mod kSlots) < unat kSlots)
   \<and> length (gWork (initial_globals 4 12 3)) = unat kSlots
   \<and> (\<exists>s'. RandomWork (initial_globals 4 12 3) = Inr s')
   \<and> (1 :: size_t) \<noteq> 0 \<and> length [5 :: 8 word] = unat (1 :: size_t)
   \<and> (\<forall>x :: size_t. unat (x mod 1) < length [5 :: 8 word])
   \<and> (\<exists>v s'. ComputeValue 1 [5 :: 8 word] (initial_globals 4 12 3) = Inr (v, s'))"
proof -
  have 1: "length (gWork (initial_globals 4 12 3)) = unat kSlots"
    by (simp add: initial_globals_def)
  have 2: "(1 :: size_t) \<noteq> 0 \<and> length [5 :: 8 word] = unat (1 :: size_t)" by simp
  show ?thesis
    using array_accesses_in_bounds[of "initial_globals 4 12 3" 1 "[5 :: 8 word]"] 1 2
    by blast
qed

section \<open>Median selection\<close>

lemma selected_is_sorted_nth:
  fixes a b :: "'a::linorder list"
  assumes a: "\<forall>x \<in> set a. x \<le> v" and b: "\<forall>x \<in> set b. v \<le> x"
    and m: "mset xs = mset (a @ v # b)"
  shows "sort xs ! length a = v"
proof -
  have le: "\<forall>x \<in> set a. \<forall>y \<in> set b. x \<le> y"
    using a b by (meson order_trans)
  have s: "sorted (sort a @ v # sort b)"
    using a b le by (simp add: sorted_append)
  have "mset (sort a @ v # sort b) = mset xs"
    using m by simp
  from this s have "sort xs = sort a @ v # sort b"
    by (rule properties_for_sort)
  then show ?thesis
    by (simp add: nth_append)
qed

lemma nth_element_post_split:
  assumes "n < length ys"
  shows "nth_element_post xs n ys \<longleftrightarrow>
           mset ys = mset xs \<and> (\<forall>x \<in> set (take n ys). x \<le> ys ! n)
             \<and> (\<forall>x \<in> set (drop (Suc n) ys). ys ! n \<le> x)"
  by (auto simp: nth_element_post_def not_less)

lemma nth_element_post_sorted_nth:
  assumes post: "nth_element_post xs n ys" and n: "n < length xs"
  shows "ys ! n = sort xs ! n"
proof -
  have len: "length ys = length xs"
    using post by (auto simp: nth_element_post_def dest: mset_eq_length)
  then have n': "n < length ys" using n by simp
  have ys: "ys = take n ys @ ys ! n # drop (Suc n) ys"
    using n' by (rule id_take_nth_drop)
  have p: "mset ys = mset xs" "\<forall>x \<in> set (take n ys). x \<le> ys ! n"
    "\<forall>x \<in> set (drop (Suc n) ys). ys ! n \<le> x"
    using post nth_element_post_split[OF n'] by auto
  have "mset xs = mset (take n ys @ ys ! n # drop (Suc n) ys)"
    using p(1) ys by simp
  from selected_is_sorted_nth[OF p(2) p(3) this] n' show ?thesis
    by simp
qed

lemma mset_partition_less:
  fixes p :: "'a::linorder"
  shows "{#x \<in># M. x < p#} + {#x \<in># M. p \<le> x#} = M"
  using multiset_partition[of M "\<lambda>x. x < p"] by (simp add: not_less)

lemma mset_quickselect: "mset (quickselect xs n) = mset xs"
  by (induction xs n rule: quickselect.induct) (simp_all add: not_less mset_partition_less)

lemma set_quickselect: "set (quickselect xs n) = set xs"
  using mset_quickselect[of xs n] by (metis set_mset_mset)

lemma length_quickselect: "length (quickselect xs n) = length xs"
  using mset_quickselect[of xs n] by (metis size_mset)

lemma quickselect_split:
  "n < length xs \<Longrightarrow>
     \<exists>a v b. quickselect xs n = a @ v # b \<and> length a = n
             \<and> (\<forall>x \<in> set a. x \<le> v) \<and> (\<forall>x \<in> set b. v \<le> x)"
proof (induction xs n rule: quickselect.induct)
  case (1 n)
  then show ?case by simp
next
  case (2 p xs n)
  let ?lo = "filter (\<lambda>x. x < p) xs" and ?hi = "filter (\<lambda>x. \<not> x < p) xs"
  have tot: "length ?lo + length ?hi = length xs"
    by (rule sum_length_filter_compl)
  consider (lt) "n < length ?lo" | (eq) "n = length ?lo" | (gt) "length ?lo < n"
    by linarith
  then show ?case
  proof cases
    case lt
    from "2.IH"(1)[OF lt lt] obtain a v b where
      q: "quickselect ?lo n = a @ v # b" "length a = n"
         "\<forall>x \<in> set a. x \<le> v" "\<forall>x \<in> set b. v \<le> x" by blast
    have "v \<in> set (quickselect ?lo n)" using q(1) by simp
    then have "v < p" by (simp add: set_quickselect)
    then have "\<forall>x \<in> set (b @ p # ?hi). v \<le> x"
      using q(4) by (auto simp: not_less)
    moreover have "quickselect (p # xs) n = a @ v # (b @ p # ?hi)"
      using lt q(1) by simp
    ultimately show ?thesis using q(2,3) by blast
  next
    case eq
    have "quickselect (p # xs) n = ?lo @ p # ?hi" using eq by simp
    moreover have "\<forall>x \<in> set ?lo. x \<le> p" "\<forall>x \<in> set ?hi. p \<le> x"
      by (auto simp: not_less)
    ultimately show ?thesis using eq by blast
  next
    case gt
    let ?m = "n - Suc (length ?lo)"
    have m: "?m < length ?hi" using gt "2.prems" tot by simp
    have nl: "\<not> n < length ?lo" "n \<noteq> length ?lo" using gt by simp_all
    from "2.IH"(2)[OF nl m] obtain a v b where
      q: "quickselect ?hi ?m = a @ v # b" "length a = ?m"
         "\<forall>x \<in> set a. x \<le> v" "\<forall>x \<in> set b. v \<le> x" by blast
    have "v \<in> set (quickselect ?hi ?m)" using q(1) by simp
    then have "p \<le> v" by (simp add: set_quickselect not_less)
    then have "\<forall>x \<in> set (?lo @ p # a). x \<le> v"
      using q(3) by auto
    moreover have "quickselect (p # xs) n = (?lo @ p # a) @ v # b"
      using nl q(1) by simp
    moreover have "length (?lo @ p # a) = n" using q(2) gt by simp
    ultimately show ?thesis using q(4) by blast
  qed
qed

lemma quickselect_contract: "nth_element_contract quickselect"
  unfolding nth_element_contract_def
proof (intro allI impI)
  fix xs :: "'a list" and n
  assume n: "n < length xs"
  from quickselect_split[OF n] obtain a v b where
    q: "quickselect xs n = a @ v # b" "length a = n"
       "\<forall>x \<in> set a. x \<le> v" "\<forall>x \<in> set b. v \<le> x" by blast
  have "quickselect xs n ! n = v" "take n (quickselect xs n) = a"
    "drop (Suc n) (quickselect xs n) = b"
    using q(1,2) by (simp_all add: nth_append)
  then show "nth_element_post xs n (quickselect xs n)"
    using q(3,4) by (simp add: nth_element_post_def mset_quickselect not_less)
qed

lemma GetMedian_eq:
  assumes f: "nth_element_contract nth_el" and odd: "odd (length c)"
  shows "GetMedian nth_el c = Inr (nth_el c (length c div 2), sort c ! (length c div 2))"
    and "mset (nth_el c (length c div 2)) = mset c"
proof -
  have h: "length c div 2 < length c" using odd by (cases c) auto
  with f have post: "nth_element_post c (length c div 2) (nth_el c (length c div 2))"
    by (simp add: nth_element_contract_def)
  then show "mset (nth_el c (length c div 2)) = mset c"
    by (simp add: nth_element_post_def)
  have "length c mod 2 = 1" using odd by (simp add: odd_iff_mod_2_eq_one)
  then show "GetMedian nth_el c = Inr (nth_el c (length c div 2), sort c ! (length c div 2))"
    using nth_element_post_sorted_nth[OF post h] by (simp add: GetMedian_def Let_def)
qed

text \<open>
  C1.  For every odd-length collection, \<open>GetMedian\<close> returns the element found at index
  \<open>length div 2\<close> of the fully sorted collection, for every \<open>nth_element\<close> that meets the
  library contract (a partial reordering); the collection is left as a permutation of itself.
\<close>

theorem GetMedian_is_sorted_middle:
  assumes "nth_element_contract nth_el" and "odd (length c)"
  shows "\<exists>c'. GetMedian nth_el c = Inr (c', sort c ! (length c div 2)) \<and> mset c' = mset c"
  using GetMedian_eq[OF assms] by blast

theorem GetMedian_is_sorted_middle_witness:
  "nth_element_contract (quickselect :: int list \<Rightarrow> nat \<Rightarrow> int list)
   \<and> odd (length [3, 5, 4, 1, 2 :: int])
   \<and> GetMedian quickselect [3, 5, 4, 1, 2 :: int] = Inr ([1, 2, 3, 5, 4], 3)
   \<and> sort [3, 5, 4, 1, 2 :: int] ! (length [3, 5, 4, 1, 2 :: int] div 2) = 3"
proof -
  have 1: "nth_element_contract (quickselect :: int list \<Rightarrow> nat \<Rightarrow> int list)"
    by (rule quickselect_contract)
  have 2: "odd (length [3, 5, 4, 1, 2 :: int])" by simp
  have 3: "GetMedian quickselect [3, 5, 4, 1, 2 :: int] = Inr ([1, 2, 3, 5, 4], 3)"
    by (simp add: GetMedian_def)
  show ?thesis
    using GetMedian_is_sorted_middle[OF 1 2] 1 2 3 by simp
qed

section \<open>The report\<close>

lemma table_dims_iff:
  "table_dims E A R t \<longleftrightarrow>
     length t = E \<and> (\<forall>i<E. length (t ! i) = A \<and> (\<forall>j<A. length (t ! i ! j) = R))"
  unfolding table_dims_def by (auto simp: all_set_conv_all_nth)

lemma same_cells_iff:
  "same_cells t t' \<longleftrightarrow>
     length t = length t' \<and>
     (\<forall>i<length t. length (t ! i) = length (t' ! i) \<and>
        (\<forall>j<length (t ! i). mset (t ! i ! j) = mset (t' ! i ! j)))"
  unfolding same_cells_def by (auto simp: list_all2_conv_all_nth)

lemma table_dims_nth:
  assumes "table_dims E A R t" "i < E" "j < A"
  shows "i < length t" "j < length (t ! i)" "length (t ! i ! j) = R"
  using assms by (auto simp: table_dims_iff)

lemma load2_ok:
  assumes "table_dims E A R t" "i < E" "j < A"
  shows "load2 t i j = Inr (t ! i ! j)"
  using table_dims_nth[OF assms] by (simp add: load2_def)

lemma same_cells_refl: "same_cells t t"
  by (simp add: same_cells_iff)

lemma same_cells_trans: "same_cells t t' \<Longrightarrow> same_cells t' t'' \<Longrightarrow> same_cells t t''"
  by (simp add: same_cells_iff)

lemma same_cells_nth:
  assumes "same_cells t t'" "i < length t" "j < length (t ! i)"
  shows "mset (t' ! i ! j) = mset (t ! i ! j)"
  using assms by (simp add: same_cells_iff)

lemma same_cells_dims:
  assumes "same_cells t t'" "table_dims E A R t"
  shows "table_dims E A R t'"
proof -
  have "length (t' ! i ! j) = R" if "i < E" "j < A" for i j
  proof -
    have "mset (t ! i ! j) = mset (t' ! i ! j)"
      using assms that by (simp add: same_cells_iff table_dims_iff)
    then have "length (t ! i ! j) = length (t' ! i ! j)" by (rule mset_eq_length)
    then show ?thesis using assms(2) that by (simp add: table_dims_iff)
  qed
  then show ?thesis
    using assms by (simp add: same_cells_iff table_dims_iff)
qed

lemma same_cells_store2:
  assumes "i < length t" "j < length (t ! i)" "mset c = mset (t ! i ! j)"
  shows "same_cells t (store2 t i j c)"
  using assms by (simp add: same_cells_iff store2_def nth_list_update)

lemma store2_nth_same:
  assumes "i < length t" "j < length (t ! i)"
  shows "store2 t i j c ! i ! j = c"
  using assms by (simp add: store2_def)

lemma median_mset_cong: "mset c = mset c' \<Longrightarrow> median c = median c'"
proof -
  assume m: "mset c = mset c'"
  then have "sort c = sort c'" by (metis mset_sort properties_for_sort sorted_sort)
  moreover have "length c = length c'" using m by (rule mset_eq_length)
  ultimately show ?thesis by (simp add: median_def)
qed

lemma td_same_refl: "td_same td td"
  by (simp add: td_same_def same_cells_refl)

lemma td_same_trans: "td_same a b \<Longrightarrow> td_same b c \<Longrightarrow> td_same a c"
  by (auto simp: td_same_def intro: same_cells_trans)

lemma td_same_dims: "td_same td td' \<Longrightarrow> td_dims E A R td \<Longrightarrow> td_dims E A R td'"
  by (auto simp: td_same_def td_dims_def intro: same_cells_dims)

lemma get_member_dims: "td_dims E A R td \<Longrightarrow> table_dims E A R (get_member c td)"
  by (cases c) (simp_all add: td_dims_def)

lemma get_member_same: "td_same td td' \<Longrightarrow> same_cells (get_member c td) (get_member c td')"
  by (cases c) (simp_all add: td_same_def)

lemma report_line_same:
  assumes "td_same td td'" "td_dims E A R td" "e < E" "a < A"
  shows "report_line hdr c td' e a = report_line hdr c td e a"
proof -
  have b: "mset (baselines td' ! e ! a) = mset (baselines td ! e ! a)"
    using assms by (intro same_cells_nth) (auto simp: td_same_def td_dims_def table_dims_iff)
  have "table_dims E A R (get_member c td)" using assms(2) by (rule get_member_dims)
  then have m: "mset (get_member c td' ! e ! a) = mset (get_member c td ! e ! a)"
    using assms get_member_same[OF assms(1), of c]
    by (intro same_cells_nth) (auto simp: table_dims_iff)
  show ?thesis
    by (simp add: report_line_def median_mset_cong[OF b] median_mset_cong[OF m])
qed

lemma Exp2_of_nat: "k < 64 \<Longrightarrow> Exp2 (of_nat k) = Inr (2 ^ k)"
proof -
  assume k: "k < 64"
  then have u: "unat (of_nat k :: size_t) = k" by (simp add: unat_of_nat)
  have "(of_nat k :: size_t) < 64" using k u by (simp add: word_less_nat_alt)
  then show ?thesis by (simp add: Exp2_def u)
qed

lemma GetMedian_cell:
  assumes f: "nth_element_contract nth_el" and odd: "odd (length c)"
  shows "\<exists>c'. GetMedian nth_el c = Inr (c', median c) \<and> mset c' = mset c"
  using GetMedian_eq[OF assms] by (auto simp: median_def)

lemma Output_inner_step:
  assumes f: "nth_element_contract (nth_element pf)" and R: "odd R"
    and dims: "td_dims E A R (timingData s)"
    and e: "e < E" and a: "a < n" "n \<le> A" "n \<le> 64"
  shows "\<exists>td2. td_same (timingData s) td2 \<and>
           Output_inner pf c hdr (2 ^ e) e a n s =
           Output_inner pf c hdr (2 ^ e) e (Suc a) n
             (s\<lparr>timingData := td2, cout := cout s @ [report_line hdr c (timingData s) e a]\<rparr>)"
proof -
  let ?td = "timingData s"
  let ?b = "baselines ?td ! e ! a"
  have aA: "a < A" and a64: "a < 64" using a by simp_all
  have bd: "table_dims E A R (baselines ?td)" using dims by (simp add: td_dims_def)
  have lb: "load2 (baselines ?td) e a = Inr ?b" using bd e aA by (rule load2_ok)
  have "odd (length ?b)" using table_dims_nth(3)[OF bd e aA] R by simp
  from GetMedian_cell[OF f this] obtain b' where
    gb: "GetMedian (nth_element pf) ?b = Inr (b', median ?b)" and mb: "mset b' = mset ?b" by blast
  let ?td1 = "?td\<lparr>baselines := store2 (baselines ?td) e a b'\<rparr>"
  have sb: "same_cells (baselines ?td) (store2 (baselines ?td) e a b')"
    using table_dims_nth(1,2)[OF bd e aA] mb by (intro same_cells_store2)
  have g1: "get_member c ?td1 = get_member c ?td" by (cases c) simp_all
  let ?cc = "get_member c ?td ! e ! a"
  have cd: "table_dims E A R (get_member c ?td)" using dims by (rule get_member_dims)
  have lc: "load2 (get_member c ?td) e a = Inr ?cc" using cd e aA by (rule load2_ok)
  have "odd (length ?cc)" using table_dims_nth(3)[OF cd e aA] R by simp
  from GetMedian_cell[OF f this] obtain c' where
    gc: "GetMedian (nth_element pf) ?cc = Inr (c', median ?cc)" and mc: "mset c' = mset ?cc" by blast
  let ?td2 = "set_member c (store2 (get_member c ?td) e a c') ?td1"
  have sc: "same_cells (get_member c ?td) (store2 (get_member c ?td) e a c')"
    using table_dims_nth(1,2)[OF cd e aA] mc by (intro same_cells_store2)
  have same: "td_same ?td ?td2"
    using sb sc by (cases c) (simp_all add: td_same_def same_cells_refl)
  have "Output_inner pf c hdr (2 ^ e) e a n s =
          Output_inner pf c hdr (2 ^ e) e (Suc a) n
            (s\<lparr>timingData := ?td2, cout := cout s @ [report_line hdr c ?td e a]\<rparr>)"
    by (subst Output_inner.simps)
       (simp add: a(1) lb gb g1 lc gc Exp2_of_nat[OF a64] report_line_def Let_def)
  with same show ?thesis by blast
qed

lemma Output_inner_ok:
  assumes f: "nth_element_contract (nth_element pf)" and R: "odd R"
    and dims: "td_dims E A R (timingData s)"
    and e: "e < E" and a: "a \<le> n" "n \<le> A" "n \<le> 64"
  shows "\<exists>s'. Output_inner pf c hdr (2 ^ e) e a n s = Inr s'
           \<and> td_same (timingData s) (timingData s')
           \<and> s' = s\<lparr>timingData := timingData s',
                     cout := cout s @ map (report_line hdr c (timingData s) e) [a..<n]\<rparr>"
  using dims a(1)
proof (induction d \<equiv> "n - a" arbitrary: a s)
  case 0
  then have "\<not> a < n" "[a..<n] = []" by simp_all
  then show ?case
    by (subst Output_inner.simps) (simp add: td_same_refl)
next
  case (Suc d)
  have lt: "a < n" and d: "d = n - Suc a" using Suc.hyps(2) by simp_all
  from Output_inner_step[OF f R Suc.prems(1) e lt a(2,3), of c hdr] obtain td2 where
    same: "td_same (timingData s) td2" and
    step: "Output_inner pf c hdr (2 ^ e) e a n s =
           Output_inner pf c hdr (2 ^ e) e (Suc a) n
             (s\<lparr>timingData := td2, cout := cout s @ [report_line hdr c (timingData s) e a]\<rparr>)"
    by blast
  let ?s2 = "s\<lparr>timingData := td2, cout := cout s @ [report_line hdr c (timingData s) e a]\<rparr>"
  have dims2: "td_dims E A R (timingData ?s2)"
    using td_same_dims[OF same Suc.prems(1)] by simp
  from Suc.hyps(1)[OF d dims2] lt obtain s' where
    r: "Output_inner pf c hdr (2 ^ e) e (Suc a) n ?s2 = Inr s'"
       "td_same (timingData ?s2) (timingData s')"
       "s' = ?s2\<lparr>timingData := timingData s',
                  cout := cout ?s2 @ map (report_line hdr c (timingData ?s2) e) [Suc a..<n]\<rparr>"
    by auto
  have eqm: "map (report_line hdr c td2 e) [Suc a..<n] =
             map (report_line hdr c (timingData s) e) [Suc a..<n]"
    using report_line_same[OF same Suc.prems(1) e] a(2) by simp
  have "td_same (timingData s) (timingData s')"
    using same r(2) by (auto intro: td_same_trans)
  moreover have "s' = s\<lparr>timingData := timingData s',
                     cout := cout s @ map (report_line hdr c (timingData s) e) [a..<n]\<rparr>"
    by (subst r(3)) (simp add: eqm upt_conv_Cons[OF lt])
  ultimately show ?case using step r(1) by simp
qed

lemma frame_trans:
  "s1 = s\<lparr>timingData := t1, cout := c1\<rparr> \<Longrightarrow>
   s1\<lparr>timingData := t2, cout := c2\<rparr> = s\<lparr>timingData := t2, cout := c2\<rparr>"
  by (erule ssubst) simp

lemma Output_outer_ok:
  assumes f: "nth_element_contract (nth_element pf)" and R: "odd R"
    and dims: "td_dims E A R (timingData s)"
    and e: "e \<le> ne" "ne \<le> E" "ne \<le> 64" and na: "na \<le> A" "na \<le> 64"
  shows "\<exists>s'. Output_outer pf c hdr e ne na s = Inr s'
           \<and> td_same (timingData s) (timingData s')
           \<and> s' = s\<lparr>timingData := timingData s',
                     cout := cout s @
                       concat (map (\<lambda>i. map (report_line hdr c (timingData s) i) [0..<na]) [e..<ne])\<rparr>"
  using dims e(1)
proof (induction d \<equiv> "ne - e" arbitrary: e s)
  case 0
  then have "\<not> e < ne" "[e..<ne] = []" by simp_all
  then show ?case
    by (subst Output_outer.simps) (simp add: td_same_refl)
next
  case (Suc d)
  have lt: "e < ne" and d: "d = ne - Suc e" using Suc.hyps(2) by simp_all
  have eE: "e < E" and e64: "e < 64" using lt e(2,3) by simp_all
  from Output_inner_ok[OF f R Suc.prems(1) eE _ na, of 0 c hdr] obtain s1 where
    i: "Output_inner pf c hdr (2 ^ e) e 0 na s = Inr s1"
       "td_same (timingData s) (timingData s1)"
       "s1 = s\<lparr>timingData := timingData s1,
                 cout := cout s @ map (report_line hdr c (timingData s) e) [0..<na]\<rparr>"
    by auto
  have step: "Output_outer pf c hdr e ne na s = Output_outer pf c hdr (Suc e) ne na s1"
    by (subst Output_outer.simps) (simp add: lt Exp2_of_nat[OF e64] i(1))
  have dims1: "td_dims E A R (timingData s1)"
    using td_same_dims[OF i(2) Suc.prems(1)] .
  from Suc.hyps(1)[OF d dims1] lt obtain s' where
    r: "Output_outer pf c hdr (Suc e) ne na s1 = Inr s'"
       "td_same (timingData s1) (timingData s')"
       "s' = s1\<lparr>timingData := timingData s',
                  cout := cout s1 @
                    concat (map (\<lambda>i. map (report_line hdr c (timingData s1) i) [0..<na]) [Suc e..<ne])\<rparr>"
    by auto
  have eqm: "map (\<lambda>i. map (report_line hdr c (timingData s1) i) [0..<na]) [Suc e..<ne] =
             map (\<lambda>i. map (report_line hdr c (timingData s) i) [0..<na]) [Suc e..<ne]"
    using report_line_same[OF i(2) Suc.prems(1)] e(2) na(1) by simp
  have c1: "cout s1 = cout s @ map (report_line hdr c (timingData s) e) [0..<na]"
    by (subst i(3)) simp
  have "td_same (timingData s) (timingData s')"
    using i(2) r(2) by (rule td_same_trans)
  moreover have "s' = s\<lparr>timingData := timingData s',
                     cout := cout s @
                       concat (map (\<lambda>i. map (report_line hdr c (timingData s) i) [0..<na]) [e..<ne])\<rparr>"
    by (subst r(3)) (simp add: eqm c1 upt_conv_Cons[OF lt] frame_trans[OF i(3)])
  ultimately show ?case using step r(1) by simp
qed

lemma Log2_loop_pow: "k < 64 \<Longrightarrow> Log2_loop (2 ^ k) r = r + of_nat k"
proof (induction k arbitrary: r)
  case 0
  show ?case by (subst Log2_loop.simps) simp
next
  case (Suc k)
  have d: "drop_bit 1 ((2::size_t) ^ Suc k) = 2 ^ k"
    using Suc.prems drop_bit_exp_eq[of 1 "Suc k", where ?'a = size_t]
    by (simp add: possible_bit_word del: power_Suc)
  have nz: "(2::size_t) ^ k \<noteq> 0" using Suc.prems by simp
  show ?case
    apply (subst Log2_loop.simps)
    using Suc.IH[of "r + 1"] Suc.prems d nz by (simp del: power_Suc)
qed

lemma has_single_bit_iff: "has_single_bit x \<longleftrightarrow> (\<exists>k<64. x = 2 ^ k)"
  by (auto simp: has_single_bit_def)

lemma Log2_pow: "k < 64 \<Longrightarrow> Log2 (2 ^ k) = Inr (of_nat k)"
  by (auto simp: Log2_def has_single_bit_iff Log2_loop_pow)

lemma unat_of_nat_64: "k < 64 \<Longrightarrow> unat (of_nat k :: size_t) = k"
  by (simp add: unat_of_nat)

lemma kCountOfElemSizesToEval_eq: "kCountOfElemSizesToEval = Inr 4"
proof -
  have "sizeof TYPE(64) = 2 ^ 3" by (simp add: sizeof_def)
  then have "Log2 (sizeof TYPE(64)) = Inr 3" using Log2_pow[of 3] by simp
  then show ?thesis by (simp add: kCountOfElemSizesToEval_def)
qed

lemma kCountOfArraySizesToEval_eq:
  "kMaxArraySizex2 cfg = 2 ^ m \<Longrightarrow> m < 64 \<Longrightarrow> kCountOfArraySizesToEval cfg = Inr (of_nat m)"
  by (simp add: kCountOfArraySizesToEval_def Log2_pow)

lemma Output_ok:
  assumes f: "nth_element_contract (nth_element pf)" and R: "odd R"
    and mx: "kMaxArraySizex2 cfg = 2 ^ m" "m < 64"
    and dims: "td_dims 4 m R (timingData s)"
  shows "\<exists>s'. Output pf cfg c hdr s = Inr s'
           \<and> td_same (timingData s) (timingData s')
           \<and> s' = s\<lparr>timingData := timingData s',
                     cout := cout s @
                       concat (map (\<lambda>i. map (report_line hdr c (timingData s) i) [0..<m]) [0..<4])\<rparr>"
proof -
  have "Output pf cfg c hdr s = Output_outer pf c hdr 0 4 m s"
    by (simp add: Output_def kCountOfElemSizesToEval_eq kCountOfArraySizesToEval_eq[OF mx]
          unat_of_nat_64[OF mx(2)])
  moreover from Output_outer_ok[OF f R dims, of 0 4 m c hdr] mx(2)
  have "\<exists>s'. Output_outer pf c hdr 0 4 m s = Inr s'
           \<and> td_same (timingData s) (timingData s')
           \<and> s' = s\<lparr>timingData := timingData s',
                     cout := cout s @
                       concat (map (\<lambda>i. map (report_line hdr c (timingData s) i) [0..<m]) [0..<4])\<rparr>"
    by simp
  ultimately show ?thesis by simp
qed

lemma OutputResults_ok:
  assumes f: "nth_element_contract (nth_element pf)" and R: "odd R"
    and mx: "kMaxArraySizex2 cfg = 2 ^ m" "m < 64"
    and dims: "td_dims 4 m R (timingData s)"
  shows "\<exists>s'. OutputResults pf cfg s = Inr s'
           \<and> td_same (timingData s) (timingData s')
           \<and> s' = s\<lparr>timingData := timingData s',
                     cout := cout s @
                       concat (map (\<lambda>i. map (report_line ''by ref'' ByRefs (timingData s) i) [0..<m]) [0..<4]) @
                       concat (map (\<lambda>i. map (report_line ''by val'' ByVals (timingData s) i) [0..<m]) [0..<4])\<rparr>"
proof -
  from Output_ok[OF f R mx dims, of ByRefs "''by ref''"] obtain s1 where
    1: "Output pf cfg ByRefs ''by ref'' s = Inr s1"
       "td_same (timingData s) (timingData s1)"
       "s1 = s\<lparr>timingData := timingData s1,
                 cout := cout s @
                   concat (map (\<lambda>i. map (report_line ''by ref'' ByRefs (timingData s) i) [0..<m]) [0..<4])\<rparr>"
    by blast
  have dims1: "td_dims 4 m R (timingData s1)" using td_same_dims[OF 1(2) dims] .
  from Output_ok[OF f R mx dims1, of ByVals "''by val''"] obtain s2 where
    2: "Output pf cfg ByVals ''by val'' s1 = Inr s2"
       "td_same (timingData s1) (timingData s2)"
       "s2 = s1\<lparr>timingData := timingData s2,
                 cout := cout s1 @
                   concat (map (\<lambda>i. map (report_line ''by val'' ByVals (timingData s1) i) [0..<m]) [0..<4])\<rparr>"
    by blast
  have eqm: "map (\<lambda>i. map (report_line ''by val'' ByVals (timingData s1) i) [0..<m]) [0..<4] =
             map (\<lambda>i. map (report_line ''by val'' ByVals (timingData s) i) [0..<m]) [0..<4]"
    using report_line_same[OF 1(2) dims] by simp
  have c1: "cout s1 = cout s @
              concat (map (\<lambda>i. map (report_line ''by ref'' ByRefs (timingData s) i) [0..<m]) [0..<4])"
    by (subst 1(3)) simp
  have "td_same (timingData s) (timingData s2)" using 1(2) 2(2) by (rule td_same_trans)
  moreover have "s2 = s\<lparr>timingData := timingData s2,
                     cout := cout s @
                       concat (map (\<lambda>i. map (report_line ''by ref'' ByRefs (timingData s) i) [0..<m]) [0..<4]) @
                       concat (map (\<lambda>i. map (report_line ''by val'' ByVals (timingData s) i) [0..<m]) [0..<4])\<rparr>"
    by (subst 2(3)) (simp add: eqm c1 frame_trans[OF 1(3)])
  ultimately show ?thesis using 1(1) 2(1) by (simp add: OutputResults_def)
qed

lemma unat_pow2: "k < 64 \<Longrightarrow> unat ((2::size_t) ^ k) = 2 ^ k"
proof -
  assume k: "k < 64"
  have "(2::size_t) ^ k = of_nat (2 ^ k)" by simp
  then have "unat ((2::size_t) ^ k) = 2 ^ k mod 2 ^ 64" by (simp only: unat_of_nat) simp
  moreover have "(2::nat) ^ k < 2 ^ 64" using k by (simp only: power_strict_increasing_iff)
  ultimately show ?thesis by simp
qed

lemma pow2_word_less: "a < b \<Longrightarrow> b < 64 \<Longrightarrow> (2::size_t) ^ a < 2 ^ b"
  by (simp add: word_less_nat_alt unat_pow2)

lemma sorted_wrt_key_less_distinct: "sorted_wrt key_less ks \<Longrightarrow> distinct ks"
  by (induction ks) (auto simp: key_less_def)

lemma sorted_keys:
  assumes m: "m \<le> 64"
  shows "n \<le> 64 \<Longrightarrow>
    sorted_wrt key_less (concat (map (\<lambda>e. map (\<lambda>a. (2 ^ e, 2 ^ a)) [0..<m]) [0..<n]))"
proof (induction n)
  case 0
  show ?case by simp
next
  case (Suc n)
  have row: "sorted_wrt key_less (map (\<lambda>a. (2 ^ n, 2 ^ a)) [0..<m])"
    unfolding sorted_wrt_map
  proof (rule sorted_wrt_mono_rel[OF _ sorted_wrt_upt])
    fix x y assume "x \<in> set [0..<m]" "y \<in> set [0..<m]" "x < y"
    then have "(2::size_t) ^ x < 2 ^ y" using m by (intro pow2_word_less) auto
    then show "key_less (2 ^ n, 2 ^ x) (2 ^ n, 2 ^ y)" by (simp add: key_less_def)
  qed
  have cross: "key_less x y"
    if "x \<in> set (concat (map (\<lambda>e. map (\<lambda>a. (2 ^ e, 2 ^ a)) [0..<m]) [0..<n]))"
       "y \<in> set (map (\<lambda>a. (2 ^ n, 2 ^ a)) [0..<m])" for x y
  proof -
    from that(1) obtain e where "e < n" "x \<in> set (map (\<lambda>a. (2 ^ e, 2 ^ a)) [0..<m])"
      by auto
    then have e: "e < n" "fst x = 2 ^ e" by auto
    have "fst y = 2 ^ n" using that(2) by auto
    moreover have "(2::size_t) ^ e < 2 ^ n" using e(1) Suc.prems by (intro pow2_word_less) auto
    ultimately show ?thesis using e(2) by (simp add: key_less_def)
  qed
  show ?case
    using Suc.IH Suc.prems row cross by (simp add: sorted_wrt_append)
qed

lemma line_keys_report:
  "map line_key (concat (map (\<lambda>i. map (report_line hdr c td i) [0..<m]) [0..<n])) =
   concat (map (\<lambda>e. map (\<lambda>a. (2 ^ e, 2 ^ a)) [0..<m]) [0..<n])"
  by (simp add: map_concat o_def report_line_def)

text \<open>
  C5.  On a fully shaped table (4 element sizes, \<open>m\<close> array sizes, an odd number \<open>R\<close> of runs)
  the report appends to the output first the "by ref" lines and then the "by val" lines; each
  group runs through the element-size indices \<open>0..3\<close> in order and, inside each, through the
  array-size indices \<open>0..m-1\<close> in order, so its coordinates are strictly ascending (element
  size first, array size second) and each coordinate of the matrix occurs exactly once; the
  duration on a line is the median of the mode's cell minus the median of the baseline cell.
\<close>

theorem OutputResults_report:
  assumes "nth_element_contract (nth_element pf)"
    and "kMaxArraySizex2 cfg = 2 ^ m" and "m < 64"
    and "odd R" and "td_dims 4 m R (timingData s)"
  shows "\<exists>s' refs vals.
      OutputResults pf cfg s = Inr s' \<and> cout s' = cout s @ refs @ vals
    \<and> refs = [DataLine ''by ref'' (2 ^ a) (2 ^ e)
                (median (byRefs (timingData s) ! e ! a) - median (baselines (timingData s) ! e ! a)).
              e \<leftarrow> [0..<4], a \<leftarrow> [0..<m]]
    \<and> vals = [DataLine ''by val'' (2 ^ a) (2 ^ e)
                (median (byVals (timingData s) ! e ! a) - median (baselines (timingData s) ! e ! a)).
              e \<leftarrow> [0..<4], a \<leftarrow> [0..<m]]
    \<and> sorted_wrt key_less (map line_key refs) \<and> sorted_wrt key_less (map line_key vals)
    \<and> distinct (map line_key refs) \<and> distinct (map line_key vals)
    \<and> set (map line_key refs) = {(2 ^ e, 2 ^ a) | e a. e < 4 \<and> a < m}
    \<and> set (map line_key vals) = {(2 ^ e, 2 ^ a) | e a. e < 4 \<and> a < m}"
proof -
  let ?td = "timingData s"
  let ?refs = "concat (map (\<lambda>i. map (report_line ''by ref'' ByRefs ?td i) [0..<m]) [0..<4])"
  let ?vals = "concat (map (\<lambda>i. map (report_line ''by val'' ByVals ?td i) [0..<m]) [0..<4])"
  let ?keys = "concat (map (\<lambda>e. map (\<lambda>a. (2 ^ e, 2 ^ a) :: size_t \<times> size_t) [0..<m]) [0..<4])"
  from OutputResults_ok[OF assms(1,4,2,3,5)] obtain s' where
    r: "OutputResults pf cfg s = Inr s'"
       "s' = s\<lparr>timingData := timingData s', cout := cout s @ ?refs @ ?vals\<rparr>"
    by blast
  have c: "cout s' = cout s @ ?refs @ ?vals" by (subst r(2)) simp
  have kr: "map line_key ?refs = ?keys" and kv: "map line_key ?vals = ?keys"
    by (rule line_keys_report)+
  have so: "sorted_wrt key_less ?keys" using assms(3) by (intro sorted_keys) simp_all
  have di: "distinct ?keys" using so by (rule sorted_wrt_key_less_distinct)
  have se: "set ?keys = {(2 ^ e, 2 ^ a) | e a. e < 4 \<and> a < m}" by fastforce
  have er: "?refs = [DataLine ''by ref'' (2 ^ a) (2 ^ e)
                (median (byRefs ?td ! e ! a) - median (baselines ?td ! e ! a)).
              e \<leftarrow> [0..<4], a \<leftarrow> [0..<m]]"
    by (simp add: report_line_def [abs_def])
  have ev: "?vals = [DataLine ''by val'' (2 ^ a) (2 ^ e)
                (median (byVals ?td ! e ! a) - median (baselines ?td ! e ! a)).
              e \<leftarrow> [0..<4], a \<leftarrow> [0..<m]]"
    by (simp add: report_line_def [abs_def])
  show ?thesis
  proof (intro exI conjI)
    show "OutputResults pf cfg s = Inr s'" by (rule r(1))
    show "cout s' = cout s @ ?refs @ ?vals" by (rule c)
    show "?refs = [DataLine ''by ref'' (2 ^ a) (2 ^ e)
                (median (byRefs ?td ! e ! a) - median (baselines ?td ! e ! a)).
              e \<leftarrow> [0..<4], a \<leftarrow> [0..<m]]" by (rule er)
    show "?vals = [DataLine ''by val'' (2 ^ a) (2 ^ e)
                (median (byVals ?td ! e ! a) - median (baselines ?td ! e ! a)).
              e \<leftarrow> [0..<4], a \<leftarrow> [0..<m]]" by (rule ev)
    show "sorted_wrt key_less (map line_key ?refs)" by (simp only: kr so)
    show "sorted_wrt key_less (map line_key ?vals)" by (simp only: kv so)
    show "distinct (map line_key ?refs)" by (simp only: kr di)
    show "distinct (map line_key ?vals)" by (simp only: kv di)
    show "set (map line_key ?refs) = {(2 ^ e, 2 ^ a) | e a. e < 4 \<and> a < m}" by (simp only: kr se)
    show "set (map line_key ?vals) = {(2 ^ e, 2 ^ a) | e a. e < 4 \<and> a < m}" by (simp only: kv se)
  qed
qed

lemma example_platform_contract: "nth_element_contract (nth_element example_platform)"
  by (simp add: example_platform_def quickselect_contract)

lemma debug_config_max: "kMaxArraySizex2 debug_config = 2 ^ 12"
  by (simp add: debug_config_def)

lemma table_dims_replicate: "table_dims E A R (replicate E (replicate A (replicate R x)))"
  by (simp add: table_dims_iff)

lemma table_dims_replicate_cell: "length c = R \<Longrightarrow> table_dims E A R (replicate E (replicate A c))"
  by (simp add: table_dims_iff)

lemma example_state_dims: "td_dims 4 12 3 (timingData example_state)"
  by (simp add: example_state_def td_dims_def table_dims_replicate_cell)

lemma example_medians:
  "median [7, 5, 6 :: int] = 6" "median [4, 6, 5 :: int] = 5" "median [9, 8, 7 :: int] = 8"
  by (simp_all add: median_def)

theorem OutputResults_report_witness:
  "nth_element_contract (nth_element example_platform)
   \<and> kMaxArraySizex2 debug_config = 2 ^ 12 \<and> (12 :: nat) < 64 \<and> odd (3 :: nat)
   \<and> td_dims 4 12 3 (timingData example_state)
   \<and> (\<exists>s'. OutputResults example_platform debug_config example_state = Inr s'
          \<and> cout s' = cout example_state @
               [DataLine ''by ref'' (2 ^ a) (2 ^ e) (- 1). e \<leftarrow> [0..<4], a \<leftarrow> [0..<12]] @
               [DataLine ''by val'' (2 ^ a) (2 ^ e) 2. e \<leftarrow> [0..<4], a \<leftarrow> [0..<12]])"
proof -
  have 3: "(12 :: nat) < 64" and 4: "odd (3 :: nat)" by simp_all
  have cell: "baselines (timingData example_state) ! e ! a = [7, 5, 6]"
    "byRefs (timingData example_state) ! e ! a = [4, 6, 5]"
    "byVals (timingData example_state) ! e ! a = [9, 8, 7]" if "e < 4" "a < 12" for e a
    using that by (simp_all add: example_state_def)
  have r: "[DataLine ''by ref'' (2 ^ a) (2 ^ e)
              (median (byRefs (timingData example_state) ! e ! a)
               - median (baselines (timingData example_state) ! e ! a)).
            e \<leftarrow> [0..<4], a \<leftarrow> [0..<12]]
         = [DataLine ''by ref'' (2 ^ a) (2 ^ e) (- 1). e \<leftarrow> [0..<4], a \<leftarrow> [0..<12]]"
    by (intro arg_cong[where f = concat] map_cong refl) (simp add: cell example_medians)
  have v: "[DataLine ''by val'' (2 ^ a) (2 ^ e)
              (median (byVals (timingData example_state) ! e ! a)
               - median (baselines (timingData example_state) ! e ! a)).
            e \<leftarrow> [0..<4], a \<leftarrow> [0..<12]]
         = [DataLine ''by val'' (2 ^ a) (2 ^ e) 2. e \<leftarrow> [0..<4], a \<leftarrow> [0..<12]]"
    by (intro arg_cong[where f = concat] map_cong refl) (simp add: cell example_medians)
  from OutputResults_report[OF example_platform_contract debug_config_max 3 4 example_state_dims]
  have "\<exists>s'. OutputResults example_platform debug_config example_state = Inr s'
          \<and> cout s' = cout example_state @
               [DataLine ''by ref'' (2 ^ a) (2 ^ e) (- 1). e \<leftarrow> [0..<4], a \<leftarrow> [0..<12]] @
               [DataLine ''by val'' (2 ^ a) (2 ^ e) 2. e \<leftarrow> [0..<4], a \<leftarrow> [0..<12]]"
    unfolding r v by blast
  then show ?thesis
    using example_platform_contract debug_config_max example_state_dims by simp
qed

section \<open>Sign of the adjusted duration\<close>

lemma nonneg_report_line:
  "nonneg_line (report_line hdr c td e a) \<longleftrightarrow>
     median (baselines td ! e ! a) \<le> median (get_member c td ! e ! a)"
  by (simp add: report_line_def)

lemma nonneg_report:
  "list_all nonneg_line (concat (map (\<lambda>i. map (report_line hdr c td i) [0..<m]) [0..<n])) \<longleftrightarrow>
     (\<forall>e<n. \<forall>a<m. median (baselines td ! e ! a) \<le> median (get_member c td ! e ! a))"
  by (auto simp: list_all_iff nonneg_report_line)

text \<open>
  C6 (as stated, refuted).  In the debug configuration, with a table whose by-reference
  samples (4, 6, 5) have a smaller median than the baseline samples (7, 5, 6), the report
  completes and its output holds a data line with a negative duration.
\<close>

theorem negative_duration_counterexample:
  "\<not> isl (OutputResults example_platform debug_config example_state)
   \<and> \<not> list_all nonneg_line
         (cout (projr (OutputResults example_platform debug_config example_state)))"
proof -
  have 3: "(12 :: nat) < 64" and 4: "odd (3 :: nat)" by simp_all
  let ?td = "timingData example_state"
  from OutputResults_ok[OF example_platform_contract 4 debug_config_max 3 example_state_dims]
  obtain s' where
    r: "OutputResults example_platform debug_config example_state = Inr s'"
       "s' = example_state\<lparr>timingData := timingData s',
               cout := cout example_state @
                 concat (map (\<lambda>i. map (report_line ''by ref'' ByRefs ?td i) [0..<12]) [0..<4]) @
                 concat (map (\<lambda>i. map (report_line ''by val'' ByVals ?td i) [0..<12]) [0..<4])\<rparr>"
    by blast
  have c: "cout s' = cout example_state @
                 concat (map (\<lambda>i. map (report_line ''by ref'' ByRefs ?td i) [0..<12]) [0..<4]) @
                 concat (map (\<lambda>i. map (report_line ''by val'' ByVals ?td i) [0..<12]) [0..<4])"
    by (subst r(2)) simp
  have "\<not> median (baselines ?td ! 0 ! 0) \<le> median (get_member ByRefs ?td ! 0 ! 0)"
    by (simp add: example_state_def example_medians)
  then have "\<not> list_all nonneg_line
                (concat (map (\<lambda>i. map (report_line ''by ref'' ByRefs ?td i) [0..<12]) [0..<4]))"
    unfolding nonneg_report by (metis zero_less_numeral)
  then have "\<not> list_all nonneg_line (cout s')"
    unfolding c by simp
  then show ?thesis by (simp add: r(1))
qed

lemma length_concat_rows:
  "length (concat (map (\<lambda>i. map (f i) [0..<m]) [0..<n])) = n * m"
  by (induction n) simp_all

lemma nth_concat_rows:
  assumes "a < m"
  shows "e < n \<Longrightarrow> concat (map (\<lambda>i. map (f i) [0..<m]) [0..<n]) ! (e * m + a) = f e a"
proof (induction n)
  case 0
  then show ?case by simp
next
  case (Suc n)
  let ?xs = "concat (map (\<lambda>i. map (f i) [0..<m]) [0..<n])"
  have split: "concat (map (\<lambda>i. map (f i) [0..<m]) [0..<Suc n]) = ?xs @ map (f n) [0..<m]"
    by simp
  show ?case
  proof (cases "e < n")
    case True
    have "e * m + a < e * m + m" using assms by simp
    also have "\<dots> = Suc e * m" by simp
    also have "\<dots> \<le> n * m" using True by (intro mult_le_mono1) simp
    finally have "e * m + a < length ?xs" by (simp only: length_concat_rows)
    then show ?thesis
      unfolding split using Suc.IH[OF True] by (simp only: nth_append if_True)
  next
    case False
    then have e: "e = n" using Suc.prems by simp
    have "\<not> n * m + a < length ?xs" by (simp add: length_concat_rows)
    then have "(?xs @ map (f n) [0..<m]) ! (n * m + a) = map (f n) [0..<m] ! a"
      by (simp only: nth_append if_False length_concat_rows) simp
    then show ?thesis unfolding split e using assms by simp
  qed
qed

text \<open>
  C6 (amended).  The duration on a data line is the signed difference of the two medians;
  nothing clamps it.  The report adds the by-reference lines and then the by-value lines;
  the line for the coordinate \<open>(e, a)\<close> is the one at position \<open>e * m + a\<close> of its group, its
  duration is the median of the mode's cell minus the median of the baseline cell, and it
  is non-negative exactly when the mode's median is not below the baseline median, negative
  exactly when it is below.  Hence the lines added are all non-negative exactly when, in
  every cell, neither the by-reference nor the by-value median is below the baseline median.
\<close>

theorem adjusted_duration_signed:
  assumes "nth_element_contract (nth_element pf)"
    and "kMaxArraySizex2 cfg = 2 ^ m" and "m < 64"
    and "odd R" and "td_dims 4 m R (timingData s)"
  shows "\<exists>s' refs vals.
             OutputResults pf cfg s = Inr s' \<and> cout s' = cout s @ refs @ vals
           \<and> length refs = 4 * m \<and> length vals = 4 * m
           \<and> (\<forall>e<4. \<forall>a<m.
                  refs ! (e * m + a) =
                    DataLine ''by ref'' (2 ^ a) (2 ^ e)
                      (median (byRefs (timingData s) ! e ! a)
                       - median (baselines (timingData s) ! e ! a))
                \<and> vals ! (e * m + a) =
                    DataLine ''by val'' (2 ^ a) (2 ^ e)
                      (median (byVals (timingData s) ! e ! a)
                       - median (baselines (timingData s) ! e ! a))
                \<and> (nonneg_line (refs ! (e * m + a)) \<longleftrightarrow>
                     median (baselines (timingData s) ! e ! a)
                       \<le> median (byRefs (timingData s) ! e ! a))
                \<and> (nonneg_line (vals ! (e * m + a)) \<longleftrightarrow>
                     median (baselines (timingData s) ! e ! a)
                       \<le> median (byVals (timingData s) ! e ! a))
                \<and> (median (byRefs (timingData s) ! e ! a)
                       < median (baselines (timingData s) ! e ! a) \<longrightarrow>
                     (\<exists>d<0. refs ! (e * m + a) = DataLine ''by ref'' (2 ^ a) (2 ^ e) d))
                \<and> (median (byVals (timingData s) ! e ! a)
                       < median (baselines (timingData s) ! e ! a) \<longrightarrow>
                     (\<exists>d<0. vals ! (e * m + a) = DataLine ''by val'' (2 ^ a) (2 ^ e) d)))
           \<and> (list_all nonneg_line (drop (length (cout s)) (cout s')) \<longleftrightarrow>
                (\<forall>e<4. \<forall>a<m.
                   median (baselines (timingData s) ! e ! a) \<le> median (byRefs (timingData s) ! e ! a)
                 \<and> median (baselines (timingData s) ! e ! a) \<le> median (byVals (timingData s) ! e ! a)))"
proof -
  let ?td = "timingData s"
  let ?refs = "concat (map (\<lambda>i. map (report_line ''by ref'' ByRefs ?td i) [0..<m]) [0..<4])"
  let ?vals = "concat (map (\<lambda>i. map (report_line ''by val'' ByVals ?td i) [0..<m]) [0..<4])"
  from OutputResults_ok[OF assms(1,4,2,3,5)] obtain s' where
    r: "OutputResults pf cfg s = Inr s'"
       "s' = s\<lparr>timingData := timingData s', cout := cout s @ ?refs @ ?vals\<rparr>"
    by blast
  have c: "cout s' = cout s @ ?refs @ ?vals" by (subst r(2)) simp
  have lr: "length ?refs = 4 * m" and lv: "length ?vals = 4 * m"
    by (rule length_concat_rows)+
  have nr: "?refs ! (e * m + a) = report_line ''by ref'' ByRefs ?td e a"
    and nv: "?vals ! (e * m + a) = report_line ''by val'' ByVals ?td e a"
    if "e < 4" "a < m" for e a
    using that by (simp_all only: nth_concat_rows)
  have lines: "?refs ! (e * m + a) =
                    DataLine ''by ref'' (2 ^ a) (2 ^ e)
                      (median (byRefs ?td ! e ! a) - median (baselines ?td ! e ! a))
                \<and> ?vals ! (e * m + a) =
                    DataLine ''by val'' (2 ^ a) (2 ^ e)
                      (median (byVals ?td ! e ! a) - median (baselines ?td ! e ! a))
                \<and> (nonneg_line (?refs ! (e * m + a)) \<longleftrightarrow>
                     median (baselines ?td ! e ! a) \<le> median (byRefs ?td ! e ! a))
                \<and> (nonneg_line (?vals ! (e * m + a)) \<longleftrightarrow>
                     median (baselines ?td ! e ! a) \<le> median (byVals ?td ! e ! a))
                \<and> (median (byRefs ?td ! e ! a) < median (baselines ?td ! e ! a) \<longrightarrow>
                     (\<exists>d<0. ?refs ! (e * m + a) = DataLine ''by ref'' (2 ^ a) (2 ^ e) d))
                \<and> (median (byVals ?td ! e ! a) < median (baselines ?td ! e ! a) \<longrightarrow>
                     (\<exists>d<0. ?vals ! (e * m + a) = DataLine ''by val'' (2 ^ a) (2 ^ e) d))"
    if ea: "e < 4" "a < m" for e a
    unfolding nr[OF ea] nv[OF ea] by (simp add: report_line_def)
  have "list_all nonneg_line (drop (length (cout s)) (cout s')) \<longleftrightarrow>
          list_all nonneg_line ?refs \<and> list_all nonneg_line ?vals"
    unfolding c by simp
  also have "\<dots> \<longleftrightarrow> (\<forall>e<4. \<forall>a<m.
                   median (baselines ?td ! e ! a) \<le> median (byRefs ?td ! e ! a)
                 \<and> median (baselines ?td ! e ! a) \<le> median (byVals ?td ! e ! a))"
    unfolding nonneg_report by auto
  finally have agg: "list_all nonneg_line (drop (length (cout s)) (cout s')) \<longleftrightarrow>
        (\<forall>e<4. \<forall>a<m.
           median (baselines ?td ! e ! a) \<le> median (byRefs ?td ! e ! a)
         \<and> median (baselines ?td ! e ! a) \<le> median (byVals ?td ! e ! a))" .
  have all: "\<forall>e<4. \<forall>a<m. ?refs ! (e * m + a) =
                    DataLine ''by ref'' (2 ^ a) (2 ^ e)
                      (median (byRefs ?td ! e ! a) - median (baselines ?td ! e ! a))
                \<and> ?vals ! (e * m + a) =
                    DataLine ''by val'' (2 ^ a) (2 ^ e)
                      (median (byVals ?td ! e ! a) - median (baselines ?td ! e ! a))
                \<and> (nonneg_line (?refs ! (e * m + a)) \<longleftrightarrow>
                     median (baselines ?td ! e ! a) \<le> median (byRefs ?td ! e ! a))
                \<and> (nonneg_line (?vals ! (e * m + a)) \<longleftrightarrow>
                     median (baselines ?td ! e ! a) \<le> median (byVals ?td ! e ! a))
                \<and> (median (byRefs ?td ! e ! a) < median (baselines ?td ! e ! a) \<longrightarrow>
                     (\<exists>d<0. ?refs ! (e * m + a) = DataLine ''by ref'' (2 ^ a) (2 ^ e) d))
                \<and> (median (byVals ?td ! e ! a) < median (baselines ?td ! e ! a) \<longrightarrow>
                     (\<exists>d<0. ?vals ! (e * m + a) = DataLine ''by val'' (2 ^ a) (2 ^ e) d))"
    using lines by (intro allI impI)
  show ?thesis
    by (intro exI[of _ s'] exI[of _ ?refs] exI[of _ ?vals] conjI) (rule r(1) c lr lv all agg)+
qed

theorem adjusted_duration_signed_witness:
  "nth_element_contract (nth_element example_platform)
   \<and> kMaxArraySizex2 debug_config = 2 ^ 12 \<and> (12 :: nat) < 64 \<and> odd (3 :: nat)
   \<and> td_dims 4 12 3 (timingData example_state)
   \<and> median (byRefs (timingData example_state) ! 0 ! 0)
        < median (baselines (timingData example_state) ! 0 ! 0)
   \<and> (\<exists>s' refs vals. OutputResults example_platform debug_config example_state = Inr s'
          \<and> cout s' = cout example_state @ refs @ vals
          \<and> refs ! 0 = DataLine ''by ref'' 1 1 (- 1)
          \<and> vals ! 0 = DataLine ''by val'' 1 1 2
          \<and> \<not> nonneg_line (refs ! 0) \<and> nonneg_line (vals ! 0)
          \<and> \<not> list_all nonneg_line (drop (length (cout example_state)) (cout s')))"
proof -
  have 3: "(12 :: nat) < 64" and 4: "odd (3 :: nat)" by simp_all
  let ?td = "timingData example_state"
  have cell: "baselines ?td ! 0 ! 0 = [7, 5, 6]" "byRefs ?td ! 0 ! 0 = [4, 6, 5]"
    "byVals ?td ! 0 ! 0 = [9, 8, 7]"
    by (simp_all add: example_state_def)
  have n: "median (byRefs ?td ! 0 ! 0) < median (baselines ?td ! 0 ! 0)"
    by (simp add: cell example_medians)
  note t = adjusted_duration_signed[OF example_platform_contract debug_config_max 3 4
      example_state_dims]
  from t obtain s' refs vals where
    r: "OutputResults example_platform debug_config example_state = Inr s'"
       "cout s' = cout example_state @ refs @ vals"
    and per: "\<forall>e<4. \<forall>a<12.
                  refs ! (e * 12 + a) =
                    DataLine ''by ref'' (2 ^ a) (2 ^ e)
                      (median (byRefs ?td ! e ! a) - median (baselines ?td ! e ! a))
                \<and> vals ! (e * 12 + a) =
                    DataLine ''by val'' (2 ^ a) (2 ^ e)
                      (median (byVals ?td ! e ! a) - median (baselines ?td ! e ! a))
                \<and> (nonneg_line (refs ! (e * 12 + a)) \<longleftrightarrow>
                     median (baselines ?td ! e ! a) \<le> median (byRefs ?td ! e ! a))
                \<and> (nonneg_line (vals ! (e * 12 + a)) \<longleftrightarrow>
                     median (baselines ?td ! e ! a) \<le> median (byVals ?td ! e ! a))
                \<and> (median (byRefs ?td ! e ! a) < median (baselines ?td ! e ! a) \<longrightarrow>
                     (\<exists>d<0. refs ! (e * 12 + a) = DataLine ''by ref'' (2 ^ a) (2 ^ e) d))
                \<and> (median (byVals ?td ! e ! a) < median (baselines ?td ! e ! a) \<longrightarrow>
                     (\<exists>d<0. vals ! (e * 12 + a) = DataLine ''by val'' (2 ^ a) (2 ^ e) d))"
    and agg: "list_all nonneg_line (drop (length (cout example_state)) (cout s')) \<longleftrightarrow>
          (\<forall>e<4. \<forall>a<12.
             median (baselines ?td ! e ! a) \<le> median (byRefs ?td ! e ! a)
           \<and> median (baselines ?td ! e ! a) \<le> median (byVals ?td ! e ! a))"
    by (elim exE conjE) (rule that)
  have z: "(0::nat) < 4" "(0::nat) < 12" by simp_all
  note p0 = per[rule_format, OF z, simplified]
  have 5: "refs ! 0 = DataLine ''by ref'' 1 1 (- 1)"
    using p0 by (simp add: cell example_medians)
  have 6: "vals ! 0 = DataLine ''by val'' 1 1 2"
    using p0 by (simp add: cell example_medians)
  have 7: "\<not> nonneg_line (refs ! 0)" by (simp add: 5)
  have 8: "nonneg_line (vals ! 0)" by (simp add: 6)
  have "\<not> (\<forall>e<4. \<forall>a<12.
             median (baselines ?td ! e ! a) \<le> median (byRefs ?td ! e ! a)
           \<and> median (baselines ?td ! e ! a) \<le> median (byVals ?td ! e ! a))"
    using n z by (metis not_le)
  then have 9: "\<not> list_all nonneg_line (drop (length (cout example_state)) (cout s'))"
    unfolding agg .
  have "\<exists>s' refs vals. OutputResults example_platform debug_config example_state = Inr s'
          \<and> cout s' = cout example_state @ refs @ vals
          \<and> refs ! 0 = DataLine ''by ref'' 1 1 (- 1)
          \<and> vals ! 0 = DataLine ''by val'' 1 1 2
          \<and> \<not> nonneg_line (refs ! 0) \<and> nonneg_line (vals ! 0)
          \<and> \<not> list_all nonneg_line (drop (length (cout example_state)) (cout s'))"
    by (intro exI[of _ s'] exI[of _ refs] exI[of _ vals] conjI) (rule r 5 6 7 8 9)+
  then show ?thesis
    by (intro conjI) (rule example_platform_contract debug_config_max 3 4 example_state_dims n)+
qed

section \<open>Assertions\<close>

lemma Exp2_ok: "exponent < 64 \<Longrightarrow> Exp2 exponent = Inr (2 ^ unat exponent)"
  by (simp add: Exp2_def push_bit_of_1)

lemma Log2_ok:
  assumes "has_single_bit powerOf2"
  shows "\<exists>k<64. powerOf2 = 2 ^ k \<and> Log2 powerOf2 = Inr (of_nat k)"
proof -
  from assms obtain k where "k < 64" "powerOf2 = 2 ^ k" by (auto simp: has_single_bit_iff)
  then show ?thesis using Log2_pow[of k] by blast
qed

lemma word_odd_iff: "(w :: size_t) mod 2 = 1 \<longleftrightarrow> odd (unat w)"
proof -
  have "w mod 2 = 1 \<longleftrightarrow> unat (w mod 2) = unat (1 :: size_t)"
    by (simp only: word_unat_eq_iff)
  also have "\<dots> \<longleftrightarrow> unat w mod 2 = 1" by (simp add: unat_mod)
  finally show ?thesis by (simp add: odd_iff_mod_2_eq_one)
qed

section \<open>The timed trials\<close>

lemma RandomWork_frame:
  assumes "length (gWork s) = unat kSlots"
  shows "\<exists>g w. RandomWork s = Inr (s\<lparr>rnd := g, gWork := w\<rparr>) \<and> length w = unat kSlots"
proof -
  obtain d1 g1 where 1: "FauxRand_call (rnd s) = (d1, g1)" by (cases "FauxRand_call (rnd s)")
  obtain v g' where 2: "FauxRand_call g1 = (v, g')" by (cases "FauxRand_call g1")
  let ?w = "(gWork s)[unat (d1 mod kSlots) :=
              gWork s ! unat (d1 mod kSlots) + (v XOR push_bit 1 v)]"
  have "calls 2 (rnd s) = ([d1, v], g')" by (simp add: calls_2 1 2)
  from RandomWork_eq[OF assms this]
  have "RandomWork s = Inr (s\<lparr>rnd := g', gWork := ?w\<rparr>)" .
  moreover have "length ?w = unat kSlots" using assms by simp
  ultimately show ?thesis by blast
qed

lemma ComputeValue_frame:
  assumes "N \<noteq> 0" "length arr = unat N"
  shows "\<exists>v g. ComputeValue N arr s = Inr (v, s\<lparr>rnd := g\<rparr>)"
proof -
  obtain c g1 where 1: "FauxRand_call (rnd s) = (c, g1)" by (cases "FauxRand_call (rnd s)")
  obtain slots g2 where 2: "calls (unat (c mod kValuesToSumMax)) g1 = (slots, g2)"
    by (cases "calls (unat (c mod kValuesToSumMax)) g1")
  from ComputeValue_eq[OF assms 1 2] show ?thesis by blast
qed

lemma work_then_compute:
  assumes N: "N \<noteq> 0" "length arr = unat N"
  shows "work_step (\<lambda>s. case RandomWork s of Inl e \<Rightarrow> Inl e | Inr s' \<Rightarrow> ComputeValue N arr s')"
  unfolding work_step_def
proof (intro allI impI)
  fix s :: globals
  assume len: "length (gWork s) = unat kSlots"
  from RandomWork_frame[OF len] obtain g w where
    rw: "RandomWork s = Inr (s\<lparr>rnd := g, gWork := w\<rparr>)" "length w = unat kSlots" by blast
  from ComputeValue_frame[OF N, of "s\<lparr>rnd := g, gWork := w\<rparr>"] obtain v g' where
    cv: "ComputeValue N arr (s\<lparr>rnd := g, gWork := w\<rparr>) = Inr (v, s\<lparr>rnd := g, gWork := w\<rparr>\<lparr>rnd := g'\<rparr>)"
    by blast
  have "(case RandomWork s of Inl e \<Rightarrow> Inl e | Inr s' \<Rightarrow> ComputeValue N arr s')
          = Inr (v, s\<lparr>rnd := g', gWork := w\<rparr>)"
    by (simp add: rw(1) cv)
  with rw(2) show "\<exists>v g w. (case RandomWork s of Inl e \<Rightarrow> Inl e | Inr s' \<Rightarrow> ComputeValue N arr s')
          = Inr (v, s\<lparr>rnd := g, gWork := w\<rparr>) \<and> length w = unat kSlots"
    by blast
qed

lemma ByVal_work_step: "N \<noteq> 0 \<Longrightarrow> length arr = unat N \<Longrightarrow> work_step (ByVal N arr)"
  using work_then_compute[of N arr] by (simp add: ByVal_def [abs_def])

lemma ByRef_work_step: "N \<noteq> 0 \<Longrightarrow> length arr = unat N \<Longrightarrow> work_step (ByRef N arr)"
  using work_then_compute[of N arr] by (simp add: ByRef_def [abs_def])

lemma passes_loop_frame:
  assumes b: "work_step body"
  shows "length (gWork s) = unat kSlots \<Longrightarrow> i \<le> n \<Longrightarrow>
     \<exists>v g w. passes_loop body i n sum_acc s = Inr (v, s\<lparr>rnd := g, gWork := w\<rparr>)
              \<and> length w = unat kSlots"
proof (induction d \<equiv> "n - i" arbitrary: i sum_acc s)
  case 0
  then have "\<not> i < n" by simp
  then have "passes_loop body i n sum_acc s = Inr (sum_acc, s\<lparr>rnd := rnd s, gWork := gWork s\<rparr>)"
    by (subst passes_loop.simps) simp
  with 0 show ?case by blast
next
  case (Suc d)
  have lt: "i < n" and d: "d = n - (i + 1)" and le: "i + 1 \<le> n" using Suc.hyps(2) by simp_all
  from b Suc.prems(1) obtain v g w where
    st: "body s = Inr (v, s\<lparr>rnd := g, gWork := w\<rparr>)" "length w = unat kSlots"
    unfolding work_step_def by blast
  have len1: "length (gWork (s\<lparr>rnd := g, gWork := w\<rparr>)) = unat kSlots" using st(2) by simp
  from Suc.hyps(1)[OF d len1 le, of "sum_acc + v"] obtain v' g' w' where
    r: "passes_loop body (Suc i) n (sum_acc + v) (s\<lparr>rnd := g, gWork := w\<rparr>)
          = Inr (v', s\<lparr>rnd := g', gWork := w'\<rparr>)"
       "length w' = unat kSlots" by auto
  have "passes_loop body i n sum_acc s = Inr (v', s\<lparr>rnd := g', gWork := w'\<rparr>)"
    by (subst passes_loop.simps) (simp add: lt st(1) r(1))
  with r(2) show ?case by blast
qed

lemma TimeArrBaseline_frame:
  assumes N: "N \<noteq> 0" "length arr = unat N" and len: "length (gWork s) = unat kSlots"
  shows "\<exists>g w. TimeArrBaseline pf cfg N arr s =
            Inr (duration_cast pf (sysclk_now pf (Suc (clock_reads s)) - sysclk_now pf (clock_reads s)),
                 s\<lparr>rnd := g, gWork := w, clock_reads := clock_reads s + 2\<rparr>)
          \<and> length w = unat kSlots"
proof -
  let ?s1 = "s\<lparr>clock_reads := Suc (clock_reads s)\<rparr>"
  have len1: "length (gWork ?s1) = unat kSlots" using len by simp
  from passes_loop_frame[OF work_then_compute[OF N] len1, of 0 "unat (kTotalPasses cfg)" 0]
  obtain v g w where
    r: "passes_loop (\<lambda>s. case RandomWork s of Inl e \<Rightarrow> Inl e | Inr s' \<Rightarrow> ComputeValue N arr s')
          0 (unat (kTotalPasses cfg)) 0 ?s1 = Inr (v, ?s1\<lparr>rnd := g, gWork := w\<rparr>)"
       "length w = unat kSlots" by auto
  have "TimeArrBaseline pf cfg N arr s =
          Inr (duration_cast pf (sysclk_now pf (Suc (clock_reads s)) - sysclk_now pf (clock_reads s)),
               s\<lparr>rnd := g, gWork := w, clock_reads := clock_reads s + 2\<rparr>)"
    by (simp add: TimeArrBaseline_def Timer_ctor_def r(1) GetElapsedMs_def Let_def)
  with r(2) show ?thesis by blast
qed

lemma TimeArrByRef_frame:
  assumes N: "N \<noteq> 0" "length arr = unat N" and len: "length (gWork s) = unat kSlots"
  shows "\<exists>g w v. TimeArrByRef pf cfg N arr s =
            Inr (duration_cast pf (sysclk_now pf (Suc (clock_reads s)) - sysclk_now pf (clock_reads s)),
                 s\<lparr>rnd := g, gWork := w, arrByRefSums := arrByRefSums s @ [v],
                    clock_reads := clock_reads s + 2\<rparr>)
          \<and> length w = unat kSlots"
proof -
  let ?s1 = "s\<lparr>clock_reads := Suc (clock_reads s)\<rparr>"
  have len1: "length (gWork ?s1) = unat kSlots" using len by simp
  from passes_loop_frame[OF ByRef_work_step[OF N] len1, of 0 "unat (kTotalPasses cfg)" 0]
  obtain v g w where
    r: "passes_loop (ByRef N arr) 0 (unat (kTotalPasses cfg)) 0 ?s1 = Inr (v, ?s1\<lparr>rnd := g, gWork := w\<rparr>)"
       "length w = unat kSlots" by auto
  have "TimeArrByRef pf cfg N arr s =
          Inr (duration_cast pf (sysclk_now pf (Suc (clock_reads s)) - sysclk_now pf (clock_reads s)),
               s\<lparr>rnd := g, gWork := w, arrByRefSums := arrByRefSums s @ [v],
                  clock_reads := clock_reads s + 2\<rparr>)"
    by (simp add: TimeArrByRef_def Timer_ctor_def r(1) GetElapsedMs_def Let_def)
  with r(2) show ?thesis by blast
qed

lemma TimeArrByVal_frame:
  assumes N: "N \<noteq> 0" "length arr = unat N" and len: "length (gWork s) = unat kSlots"
  shows "\<exists>g w v. TimeArrByVal pf cfg N arr s =
            Inr (duration_cast pf (sysclk_now pf (Suc (clock_reads s)) - sysclk_now pf (clock_reads s)),
                 s\<lparr>rnd := g, gWork := w, arrByValSums := arrByValSums s @ [v],
                    clock_reads := clock_reads s + 2\<rparr>)
          \<and> length w = unat kSlots"
proof -
  let ?s1 = "s\<lparr>clock_reads := Suc (clock_reads s)\<rparr>"
  have len1: "length (gWork ?s1) = unat kSlots" using len by simp
  from passes_loop_frame[OF ByVal_work_step[OF N] len1, of 0 "unat (kTotalPasses cfg)" 0]
  obtain v g w where
    r: "passes_loop (ByVal N arr) 0 (unat (kTotalPasses cfg)) 0 ?s1 = Inr (v, ?s1\<lparr>rnd := g, gWork := w\<rparr>)"
       "length w = unat kSlots" by auto
  have "TimeArrByVal pf cfg N arr s =
          Inr (duration_cast pf (sysclk_now pf (Suc (clock_reads s)) - sysclk_now pf (clock_reads s)),
               s\<lparr>rnd := g, gWork := w, arrByValSums := arrByValSums s @ [v],
                  clock_reads := clock_reads s + 2\<rparr>)"
    by (simp add: TimeArrByVal_def Timer_ctor_def r(1) GetElapsedMs_def Let_def)
  with r(2) show ?thesis by blast
qed

section \<open>The driver\<close>

lemma RandArray_fill_frame:
  "\<exists>arr g. (RandArray_fill n s :: 't::len word list \<times> globals) = (arr, s\<lparr>rnd := g\<rparr>)
           \<and> length arr = n"
proof (induction n arbitrary: s)
  case 0
  have "(RandArray_fill 0 s :: 't word list \<times> globals) = ([], s\<lparr>rnd := rnd s\<rparr>)" by simp
  then show ?case by blast
next
  case (Suc n)
  obtain r g1 where 1: "FauxRand_call (rnd s) = (r, g1)" by (cases "FauxRand_call (rnd s)")
  from Suc[of "s\<lparr>rnd := g1\<rparr>"] obtain arr g where
    2: "(RandArray_fill n (s\<lparr>rnd := g1\<rparr>) :: 't word list \<times> globals) = (arr, s\<lparr>rnd := g\<rparr>)"
       "length arr = n" by auto
  have "(RandArray_fill (Suc n) s :: 't word list \<times> globals) = (ucast r # arr, s\<lparr>rnd := g\<rparr>)"
    by (simp add: rnd_call_def 1 2(1))
  with 2(2) show ?case by auto
qed

lemma store3_ok:
  assumes "table_dims E A R t" "i < E" "j < A" "k < R"
  shows "\<exists>t'. store3 t i j k v = Inr t' \<and> table_dims E A R t'"
  using assms by (simp add: store3_def table_dims_iff nth_list_update)

lemma SetTimes_ok:
  assumes T: "Log2 (sizeof T) = Inr (of_nat e)" "e < 4"
    and a: "a < A" "A \<le> 64" and run: "run < R"
    and dims: "td_dims 4 A R (timingData s)"
  shows "\<exists>td'. SetTimes T (2 ^ a) run baseline byRef byVal s =
                 Inr (s\<lparr>timingData := td', set_log := set_log s @ [(e, a, run)]\<rparr>)
               \<and> td_dims 4 A R td'
               \<and> store3 (baselines (timingData s)) e a run baseline = Inr (baselines td')
               \<and> store3 (byRefs (timingData s)) e a run byRef = Inr (byRefs td')
               \<and> store3 (byVals (timingData s)) e a run byVal = Inr (byVals td')"
proof -
  have a64: "a < 64" using a by simp
  have ue: "unat (of_nat e :: size_t) = e" using T(2) by (simp add: unat_of_nat)
  have ua: "unat (of_nat a :: size_t) = a" using a64 by (rule unat_of_nat_64)
  from dims have d: "table_dims 4 A R (baselines (timingData s))"
    "table_dims 4 A R (byRefs (timingData s))" "table_dims 4 A R (byVals (timingData s))"
    by (simp_all add: td_dims_def)
  from store3_ok[OF d(1) T(2) a(1) run] obtain b where
    b: "store3 (baselines (timingData s)) e a run baseline = Inr b" "table_dims 4 A R b" by blast
  from store3_ok[OF d(2) T(2) a(1) run] obtain r where
    r: "store3 (byRefs (timingData s)) e a run byRef = Inr r" "table_dims 4 A R r" by blast
  from store3_ok[OF d(3) T(2) a(1) run] obtain v where
    v: "store3 (byVals (timingData s)) e a run byVal = Inr v" "table_dims 4 A R v" by blast
  have "SetTimes T (2 ^ a) run baseline byRef byVal s =
          Inr (s\<lparr>timingData := \<lparr>baselines = b, byRefs = r, byVals = v\<rparr>,
                 set_log := set_log s @ [(e, a, run)]\<rparr>)"
    by (simp add: SetTimes_def T(1) Log2_pow[OF a64] ue ua b(1) r(1) v(1))
  moreover have "td_dims 4 A R \<lparr>baselines = b, byRefs = r, byVals = v\<rparr>"
    using b(2) r(2) v(2) by (simp add: td_dims_def)
  ultimately show ?thesis using b(1) r(1) v(1)
    by (intro exI[of _ "\<lparr>baselines = b, byRefs = r, byVals = v\<rparr>"]) simp
qed

lemma pow2_nonzero: "a < 64 \<Longrightarrow> (2::size_t) ^ a \<noteq> 0"
  by simp

lemma Eval_body_ok:
  fixes T :: "'t::len itself"
  assumes T: "Log2 (sizeof T) = Inr (of_nat e)" "e < 4"
    and a: "a < A" "A \<le> 64" and run: "run < R"
    and inv: "driver_inv A R s"
  shows "\<exists>s' v r. Eval_body T pf cfg (2 ^ a) run s = Inr s'
           \<and> driver_inv A R s'
           \<and> set_log s' = set_log s @ [(e, a, run)]
           \<and> arrByValSums s' = arrByValSums s @ [v]
           \<and> arrByRefSums s' = arrByRefSums s @ [r]
           \<and> clock_reads s' = clock_reads s + 6
           \<and> store3 (baselines (timingData s)) e a run (elapsed pf (clock_reads s))
                 = Inr (baselines (timingData s'))
           \<and> store3 (byRefs (timingData s)) e a run (elapsed pf (clock_reads s + 2))
                 = Inr (byRefs (timingData s'))
           \<and> store3 (byVals (timingData s)) e a run (elapsed pf (clock_reads s + 4))
                 = Inr (byVals (timingData s'))"
proof -
  have a64: "a < 64" using a by simp
  have N: "(2::size_t) ^ a \<noteq> 0" using a64 by simp
  from RandArray_fill_frame[of "unat ((2::size_t) ^ a)" s] obtain arr g0 where
    c: "(RandArray_ctor (2 ^ a) s :: 't word list \<times> globals) = (arr, s\<lparr>rnd := g0\<rparr>)"
       "length arr = unat ((2::size_t) ^ a)"
    by (auto simp: RandArray_ctor_def)
  let ?s1 = "s\<lparr>rnd := g0, cout := cout s @ [TimingMsg (2 ^ a) (sizeof T)]\<rparr>"
  have len1: "length (gWork ?s1) = unat kSlots" using inv by (simp add: driver_inv_def)
  from TimeArrBaseline_frame[OF N c(2) len1, of pf cfg] obtain t1 g1 w1 where
    b: "TimeArrBaseline pf cfg (2 ^ a) arr ?s1 =
          Inr (t1, ?s1\<lparr>rnd := g1, gWork := w1, clock_reads := clock_reads ?s1 + 2\<rparr>)"
       "length w1 = unat kSlots"
       "t1 = duration_cast pf (sysclk_now pf (Suc (clock_reads ?s1)) - sysclk_now pf (clock_reads ?s1))"
    by blast
  let ?s2 = "?s1\<lparr>rnd := g1, gWork := w1, clock_reads := clock_reads ?s1 + 2\<rparr>"
  have len2: "length (gWork ?s2) = unat kSlots" using b(2) by simp
  from TimeArrByRef_frame[OF N c(2) len2, of pf cfg] obtain t2 g2 w2 r where
    rf: "TimeArrByRef pf cfg (2 ^ a) arr ?s2 =
          Inr (t2, ?s2\<lparr>rnd := g2, gWork := w2, arrByRefSums := arrByRefSums ?s2 @ [r],
                      clock_reads := clock_reads ?s2 + 2\<rparr>)"
       "length w2 = unat kSlots"
       "t2 = duration_cast pf (sysclk_now pf (Suc (clock_reads ?s2)) - sysclk_now pf (clock_reads ?s2))"
    by blast
  let ?s3 = "?s2\<lparr>rnd := g2, gWork := w2, arrByRefSums := arrByRefSums ?s2 @ [r],
                      clock_reads := clock_reads ?s2 + 2\<rparr>"
  have len3: "length (gWork ?s3) = unat kSlots" using rf(2) by simp
  from TimeArrByVal_frame[OF N c(2) len3, of pf cfg] obtain t3 g3 w3 v where
    vl: "TimeArrByVal pf cfg (2 ^ a) arr ?s3 =
          Inr (t3, ?s3\<lparr>rnd := g3, gWork := w3, arrByValSums := arrByValSums ?s3 @ [v],
                      clock_reads := clock_reads ?s3 + 2\<rparr>)"
       "length w3 = unat kSlots"
       "t3 = duration_cast pf (sysclk_now pf (Suc (clock_reads ?s3)) - sysclk_now pf (clock_reads ?s3))"
    by blast
  let ?s4 = "?s3\<lparr>rnd := g3, gWork := w3, arrByValSums := arrByValSums ?s3 @ [v],
                      clock_reads := clock_reads ?s3 + 2\<rparr>"
  have dims4: "td_dims 4 A R (timingData ?s4)" using inv by (simp add: driver_inv_def)
  from SetTimes_ok[OF T a run dims4, of t1 t2 t3] obtain td' where
    st: "SetTimes T (2 ^ a) run t1 t2 t3 ?s4 =
           Inr (?s4\<lparr>timingData := td', set_log := set_log ?s4 @ [(e, a, run)]\<rparr>)"
        "td_dims 4 A R td'"
        "store3 (baselines (timingData ?s4)) e a run t1 = Inr (baselines td')"
        "store3 (byRefs (timingData ?s4)) e a run t2 = Inr (byRefs td')"
        "store3 (byVals (timingData ?s4)) e a run t3 = Inr (byVals td')"
    by blast
  let ?s5 = "?s4\<lparr>timingData := td', set_log := set_log ?s4 @ [(e, a, run)]\<rparr>"
  have t: "t1 = elapsed pf (clock_reads s)" "t2 = elapsed pf (clock_reads s + 2)"
    "t3 = elapsed pf (clock_reads s + 4)"
    by (simp_all add: b(3) rf(3) vl(3) elapsed_def eval_nat_numeral)
  have 1: "Eval_body T pf cfg (2 ^ a) run s = Inr ?s5"
    by (simp add: Eval_body_def c(1) Let_def b(1)[simplified] rf(1)[simplified]
          vl(1)[simplified] st(1)[simplified])
  have 2: "driver_inv A R ?s5" using vl(2) st(2) by (simp add: driver_inv_def)
  have 3: "set_log ?s5 = set_log s @ [(e, a, run)]" by simp
  have 4: "arrByValSums ?s5 = arrByValSums s @ [v]" by simp
  have 5: "arrByRefSums ?s5 = arrByRefSums s @ [r]" by simp
  have 6: "clock_reads ?s5 = clock_reads s + 6" by simp
  have 7: "store3 (baselines (timingData s)) e a run (elapsed pf (clock_reads s))
             = Inr (baselines (timingData ?s5))"
    using st(3) by (simp add: t)
  have 8: "store3 (byRefs (timingData s)) e a run (elapsed pf (clock_reads s + 2))
             = Inr (byRefs (timingData ?s5))"
    using st(4) by (simp add: t)
  have 9: "store3 (byVals (timingData s)) e a run (elapsed pf (clock_reads s + 4))
             = Inr (byVals (timingData ?s5))"
    using st(5) by (simp add: t)
  show ?thesis
    by (intro exI[of _ ?s5] exI[of _ v] exI[of _ r] conjI) (rule 1 2 3 4 5 6 7 8 9)+
qed

lemma sums_extend_refl: "sums_extend s s"
  by (simp add: sums_extend_def)

lemma sums_extend_trans: "sums_extend s s' \<Longrightarrow> sums_extend s' s'' \<Longrightarrow> sums_extend s s''"
  by (auto simp: sums_extend_def)

lemma sums_extend_cout: "sums_extend s (s\<lparr>cout := c\<rparr>)"
  by (simp add: sums_extend_def)

lemma driver_inv_cout: "driver_inv A R (s\<lparr>cout := c\<rparr>) = driver_inv A R s"
  by (simp add: driver_inv_def)

lemma pow2_word_neq: "a < b \<Longrightarrow> b < 64 \<Longrightarrow> (2::size_t) ^ a \<noteq> 2 ^ b"
  using pow2_word_less[of a b] by simp

lemma Eval_ok:
  fixes T :: "'t::len itself"
  assumes mx: "kMaxArraySizex2 cfg = 2 ^ m" "m < 64"
    and T: "Log2 (sizeof T) = Inr (of_nat e)" "e < 4"
    and run: "run < R"
  shows "a \<le> m \<Longrightarrow> driver_inv m R s \<Longrightarrow>
    \<exists>s'. Eval T pf cfg (2 ^ a) run s = Some (Inr s')
        \<and> driver_inv m R s'
        \<and> set_log s' = set_log s @ map (\<lambda>j. (e, j, run)) [a..<m]
        \<and> sums_extend s s'
        \<and> (a < m \<longrightarrow> (\<exists>sb. Eval_body T pf cfg (2 ^ a) run s = Inr sb \<and> sums_extend sb s'))"
proof (induction d \<equiv> "m - a" arbitrary: a s)
  case 0
  then have "a = m" by simp
  then have "Eval T pf cfg (2 ^ a) run s = Some (Inr s)"
    by (subst Eval.simps) (simp add: mx(1))
  with 0 \<open>a = m\<close> show ?case by (simp add: sums_extend_refl)
next
  case (Suc d)
  have lt: "a < m" and d: "d = m - Suc a" and le: "Suc a \<le> m" using Suc.hyps(2) by simp_all
  have m64: "m \<le> 64" using mx(2) by simp
  from Eval_body_ok[OF T lt m64 run Suc.prems(2), of pf cfg] obtain sb v r where
    b: "Eval_body T pf cfg (2 ^ a) run s = Inr sb" "driver_inv m R sb"
       "set_log sb = set_log s @ [(e, a, run)]"
       "arrByValSums sb = arrByValSums s @ [v]" "arrByRefSums sb = arrByRefSums s @ [r]"
    by blast
  have ext: "sums_extend s sb" using b(4,5) by (simp add: sums_extend_def)
  from Suc.hyps(1)[OF d le b(2)] obtain s' where
    r: "Eval T pf cfg (2 ^ Suc a) run sb = Some (Inr s')" "driver_inv m R s'"
       "set_log s' = set_log sb @ map (\<lambda>j. (e, j, run)) [Suc a..<m]"
       "sums_extend sb s'" by blast
  have ne: "(2::size_t) ^ a \<noteq> 2 ^ m" using lt mx(2) by (rule pow2_word_neq)
  have p: "(2::size_t) ^ a * 2 = 2 ^ Suc a" by simp
  have "Eval T pf cfg (2 ^ a) run s = Some (Inr s')"
    by (subst Eval.simps) (simp add: mx(1) ne b(1) p r(1) del: power_Suc)
  moreover have "set_log s' = set_log s @ map (\<lambda>j. (e, j, run)) [a..<m]"
    by (simp add: r(3) b(3) upt_conv_Cons[OF lt])
  ultimately show ?case
    using r(2,4) ext b(1) by (auto intro: sums_extend_trans)
qed

lemma Log2_sizeof:
  "Log2 (sizeof TYPE(8)) = Inr (of_nat 0)" "Log2 (sizeof TYPE(16)) = Inr (of_nat 1)"
  "Log2 (sizeof TYPE(32)) = Inr (of_nat 2)" "Log2 (sizeof TYPE(64)) = Inr (of_nat 3)"
  using Log2_pow[of 0] Log2_pow[of 1] Log2_pow[of 2] Log2_pow[of 3]
  by (simp_all add: sizeof_def)

lemma run_body_ok:
  assumes mx: "kMaxArraySizex2 cfg = 2 ^ m" "m < 64"
    and run: "run < R" and inv: "driver_inv m R s"
  shows "\<exists>s'. run_body pf cfg run s = Some (Inr s')
        \<and> driver_inv m R s'
        \<and> set_log s' = set_log s @ concat (map (\<lambda>e. map (\<lambda>j. (e, j, run)) [0..<m]) [0..<4])
        \<and> sums_extend s s'
        \<and> (0 < m \<longrightarrow> (\<exists>sb. Eval_body TYPE(8) pf cfg 1 run (s\<lparr>cout := cout s @ [RunNo run]\<rparr>) = Inr sb
                          \<and> sums_extend sb s'))"
proof -
  let ?s0 = "s\<lparr>cout := cout s @ [RunNo run]\<rparr>"
  have inv0: "driver_inv m R ?s0" using inv by (simp add: driver_inv_cout)
  from Eval_ok[OF mx Log2_sizeof(1) _ run _ inv0, of 0 pf] obtain s1 where
    1: "Eval TYPE(8) pf cfg 1 run ?s0 = Some (Inr s1)" "driver_inv m R s1"
       "set_log s1 = set_log s @ map (\<lambda>j. (0, j, run)) [0..<m]" "sums_extend ?s0 s1"
       "0 < m \<longrightarrow> (\<exists>sb. Eval_body TYPE(8) pf cfg 1 run ?s0 = Inr sb \<and> sums_extend sb s1)"
    by auto
  from Eval_ok[OF mx Log2_sizeof(2) _ run _ 1(2), of 0 pf] obtain s2 where
    2: "Eval TYPE(16) pf cfg 1 run s1 = Some (Inr s2)" "driver_inv m R s2"
       "set_log s2 = set_log s1 @ map (\<lambda>j. (1, j, run)) [0..<m]" "sums_extend s1 s2"
    by auto
  from Eval_ok[OF mx Log2_sizeof(3) _ run _ 2(2), of 0 pf] obtain s3 where
    3: "Eval TYPE(32) pf cfg 1 run s2 = Some (Inr s3)" "driver_inv m R s3"
       "set_log s3 = set_log s2 @ map (\<lambda>j. (2, j, run)) [0..<m]" "sums_extend s2 s3"
    by auto
  from Eval_ok[OF mx Log2_sizeof(4) _ run _ 3(2), of 0 pf] obtain s4 where
    4: "Eval TYPE(64) pf cfg 1 run s3 = Some (Inr s4)" "driver_inv m R s4"
       "set_log s4 = set_log s3 @ map (\<lambda>j. (3, j, run)) [0..<m]" "sums_extend s3 s4"
    by auto
  have "run_body pf cfg run s = Some (Inr s4)"
    by (simp add: run_body_def then_Eval_def 1(1) 2(1) 3(1) 4(1))
  moreover have "set_log s4 = set_log s @ concat (map (\<lambda>e. map (\<lambda>j. (e, j, run)) [0..<m]) [0..<4])"
    by (simp add: 4(3) 3(3) 2(3) 1(3) upt_conv_Cons)
  moreover have e14: "sums_extend s1 s4"
    using 2(4) 3(4) 4(4) by (blast intro: sums_extend_trans)
  moreover have "sums_extend s s4"
    using sums_extend_cout[of s "cout s @ [RunNo run]"] 1(4) e14 by (blast intro: sums_extend_trans)
  moreover have "0 < m \<longrightarrow> (\<exists>sb. Eval_body TYPE(8) pf cfg 1 run ?s0 = Inr sb \<and> sums_extend sb s4)"
    using 1(5) e14 by (blast intro: sums_extend_trans)
  ultimately show ?thesis using 4(2) by blast
qed

lemma main_loop_ok:
  assumes mx: "kMaxArraySizex2 cfg = 2 ^ m" "m < 64"
  shows "run \<le> unat (kTotalRuns cfg) \<Longrightarrow> driver_inv m (unat (kTotalRuns cfg)) s \<Longrightarrow>
    \<exists>s'. main_loop pf cfg run s = Some (Inr s')
        \<and> driver_inv m (unat (kTotalRuns cfg)) s'
        \<and> set_log s' = set_log s @
             concat (map (\<lambda>r. concat (map (\<lambda>e. map (\<lambda>j. (e, j, r)) [0..<m]) [0..<4]))
                       [run..<unat (kTotalRuns cfg)])
        \<and> sums_extend s s'
        \<and> (0 < m \<and> run < unat (kTotalRuns cfg) \<longrightarrow>
              (\<exists>sb. Eval_body TYPE(8) pf cfg 1 run (s\<lparr>cout := cout s @ [RunNo run]\<rparr>) = Inr sb
                    \<and> sums_extend sb s'))"
proof (induction d \<equiv> "unat (kTotalRuns cfg) - run" arbitrary: run s)
  case 0
  then have "\<not> run < unat (kTotalRuns cfg)" "[run..<unat (kTotalRuns cfg)] = []" by simp_all
  then show ?case
    using 0 by (subst main_loop.simps) (simp add: sums_extend_refl)
next
  case (Suc d)
  let ?R = "unat (kTotalRuns cfg)"
  have lt: "run < ?R" and d: "d = ?R - Suc run" and le: "Suc run \<le> ?R"
    using Suc.hyps(2) by simp_all
  from run_body_ok[OF mx lt Suc.prems(2), of pf] obtain s1 where
    1: "run_body pf cfg run s = Some (Inr s1)" "driver_inv m ?R s1"
       "set_log s1 = set_log s @ concat (map (\<lambda>e. map (\<lambda>j. (e, j, run)) [0..<m]) [0..<4])"
       "sums_extend s s1"
       "0 < m \<longrightarrow> (\<exists>sb. Eval_body TYPE(8) pf cfg 1 run (s\<lparr>cout := cout s @ [RunNo run]\<rparr>) = Inr sb
                          \<and> sums_extend sb s1)"
    by blast
  from Suc.hyps(1)[OF d le 1(2)] obtain s' where
    r: "main_loop pf cfg (Suc run) s1 = Some (Inr s')" "driver_inv m ?R s'"
       "set_log s' = set_log s1 @
             concat (map (\<lambda>r. concat (map (\<lambda>e. map (\<lambda>j. (e, j, r)) [0..<m]) [0..<4]))
                       [Suc run..<?R])"
       "sums_extend s1 s'"
    by blast
  have "main_loop pf cfg run s = Some (Inr s')"
    by (subst main_loop.simps) (simp add: lt 1(1) r(1))
  moreover have "set_log s' = set_log s @
             concat (map (\<lambda>r. concat (map (\<lambda>e. map (\<lambda>j. (e, j, r)) [0..<m]) [0..<4]))
                       [run..<?R])"
    by (simp only: r(3) 1(3) upt_conv_Cons[OF lt]) simp
  moreover have "sums_extend s s'" using 1(4) r(4) by (rule sums_extend_trans)
  moreover have "0 < m \<and> run < ?R \<longrightarrow>
              (\<exists>sb. Eval_body TYPE(8) pf cfg 1 run (s\<lparr>cout := cout s @ [RunNo run]\<rparr>) = Inr sb
                    \<and> sums_extend sb s')"
    using 1(5) r(4) by (blast intro: sums_extend_trans)
  ultimately show ?case using r(2) by blast
qed

lemma initial_driver_inv: "driver_inv A R (initial_globals 4 A R)"
  by (simp add: driver_inv_def initial_globals_def td_dims_def table_dims_replicate)

lemma coordinates_product:
  "concat (map (\<lambda>r. concat (map (\<lambda>e. map (\<lambda>j. (e, j, r)) as) es)) rs) =
   map (\<lambda>(r, e, j). (e, j, r)) (List.product rs (List.product es as))"
  by (simp add: product_concat_map map_concat o_def)

lemma length_coordinates:
  "length (concat (map (\<lambda>r. concat (map (\<lambda>e. map (\<lambda>j. (e, j, r)) as) es)) rs)) =
   length rs * (length es * length as)"
  by (subst coordinates_product) (simp only: length_map length_product)

lemma distinct_coordinates:
  "distinct (concat (map (\<lambda>r. concat (map (\<lambda>e. map (\<lambda>j. (e, j, r)) [0..<m]) [0..<n])) [0..<R]))"
  unfolding coordinates_product
  by (rule distinct_map[THEN iffD2]) (auto simp: distinct_product inj_on_def)

lemma set_coordinates:
  "set (concat (map (\<lambda>r. concat (map (\<lambda>e. map (\<lambda>j. (e, j, r)) [0..<m]) [0..<n])) [0..<R])) =
   {0..<n} \<times> {0..<m} \<times> {0..<R}"
  by auto

section \<open>The exit code\<close>

lemma first_trial_ok:
  assumes mx: "0 < m" "m < 64" and R: "0 < unat (kTotalRuns cfg)"
  shows "\<exists>ft v r. first_trial pf cfg m = Inr ft \<and> arrByValSums ft = [v] \<and> arrByRefSums ft = [r]"
proof -
  let ?s = "(initial_globals 4 m (unat (kTotalRuns cfg)))
              \<lparr>cout := [Progress ''Running timing evaluation'', RunNo 0]\<rparr>"
  have inv: "driver_inv m (unat (kTotalRuns cfg)) ?s"
    by (simp add: driver_inv_cout initial_driver_inv)
  have m64: "m \<le> 64" using mx(2) by simp
  from Eval_body_ok[OF Log2_sizeof(1) _ mx(1) m64 R inv, of pf cfg] obtain ft v r where
    b: "Eval_body TYPE(8) pf cfg (2 ^ 0) 0 ?s = Inr ft"
       "arrByValSums ft = arrByValSums ?s @ [v]" "arrByRefSums ft = arrByRefSums ?s @ [r]"
    by auto
  have "first_trial pf cfg m = Inr ft" using b(1) by (simp add: first_trial_def)
  moreover have "arrByValSums ft = [v]" "arrByRefSums ft = [r]"
    using b(2,3) by (simp_all add: initial_globals_def)
  ultimately show ?thesis by blast
qed

lemma static_cast_int_low_bits: "static_cast_int x mod 2 ^ 32 = uint x mod 2 ^ 32"
proof -
  have "static_cast_int x mod 2 ^ 32 = take_bit 32 (sint (ucast x :: 32 word))"
    by (simp only: static_cast_int_def take_bit_eq_mod)
  also have "\<dots> = uint (ucast x :: 32 word)"
    using uint_sint[of "ucast x :: 32 word"] by simp
  also have "\<dots> = take_bit 32 (uint x)"
    using unsigned_ucast_eq[of x, where ?'c = 32 and ?'a = int] by simp
  finally show ?thesis by (simp only: take_bit_eq_mod)
qed

lemma main_ok:
  assumes f: "nth_element_contract (nth_element pf)"
    and mx: "kMaxArraySizex2 cfg = 2 ^ m" "0 < m" "m < 64"
    and odd: "kTotalRuns cfg mod 2 = 1"
  shows "\<exists>ft v r s'. first_trial pf cfg m = Inr ft \<and> arrByValSums ft = [v] \<and> arrByRefSums ft = [r]
           \<and> main pf cfg = Some (Inr (static_cast_int (v + r), s'))
           \<and> hd (arrByValSums s') = v \<and> hd (arrByRefSums s') = r"
proof -
  let ?R = "unat (kTotalRuns cfg)"
  let ?s0 = "initial_globals 4 m ?R"
  let ?s1 = "?s0\<lparr>cout := cout ?s0 @ [Progress ''Running timing evaluation'']\<rparr>"
  have oddR: "odd ?R" by (rule word_odd_iff[THEN iffD1, OF odd])
  then have R: "0 < ?R" by (rule odd_pos)
  from first_trial_ok[OF mx(2,3) R, of pf] obtain ft v r where
    ft: "first_trial pf cfg m = Inr ft" "arrByValSums ft = [v]" "arrByRefSums ft = [r]"
    by blast
  have inv: "driver_inv m ?R ?s1" by (simp add: driver_inv_cout initial_driver_inv)
  have start: "?s1\<lparr>cout := cout ?s1 @ [RunNo 0]\<rparr> =
               ?s0\<lparr>cout := [Progress ''Running timing evaluation'', RunNo 0]\<rparr>"
    by (simp add: initial_globals_def)
  from main_loop_ok[OF mx(1,3) _ inv, of 0 pf] mx(2) R obtain s2 sb where
    l: "main_loop pf cfg 0 ?s1 = Some (Inr s2)" "driver_inv m ?R s2"
       "Eval_body TYPE(8) pf cfg 1 0 (?s1\<lparr>cout := cout ?s1 @ [RunNo 0]\<rparr>) = Inr sb"
       "sums_extend sb s2"
    by auto
  have "sb = ft" using l(3) ft(1) unfolding start first_trial_def by simp
  then obtain vs rs where
    s2: "arrByValSums s2 = v # vs" "arrByRefSums s2 = r # rs"
    using l(4) ft(2,3) by (auto simp: sums_extend_def)
  let ?s3 = "s2\<lparr>cout := cout s2 @ [Progress ''Param Pass Type, Array Size, sizeof(T), Time'']\<rparr>"
  have dims3: "td_dims 4 m ?R (timingData ?s3)" using l(2) by (simp add: driver_inv_def)
  from OutputResults_ok[OF f oddR mx(1,3) dims3] obtain s4 td4 c4 where
    o: "OutputResults pf cfg ?s3 = Inr s4" "s4 = ?s3\<lparr>timingData := td4, cout := c4\<rparr>"
    by blast
  have s4: "arrByValSums s4 = v # vs" "arrByRefSums s4 = r # rs"
    by (simp_all add: o(2) s2)
  have "main pf cfg = Some (Inr (static_cast_int (v + r), s4))"
    by (simp add: main_def odd kCountOfElemSizesToEval_eq kCountOfArraySizesToEval_eq[OF mx(1,3)]
          unat_of_nat_64[OF mx(3)] Let_def l(1) o(1) s4)
  moreover have "hd (arrByValSums s4) = v" "hd (arrByRefSums s4) = r" by (simp_all add: s4)
  ultimately show ?thesis using ft by blast
qed

text \<open>
  C9.  \<open>main\<close> runs to its end, and the exit code is the \<open>int\<close> truncation of the sum of the
  front elements of the two accumulator vectors: the two's-complement reading of the low 32
  bits of the sum, a value from \<open>- 2^31\<close> up to \<open>2^31 - 1\<close> that agrees with the sum modulo
  \<open>2^32\<close>.  The two front elements are the totals pushed by \<open>TimeArrByVal\<close> and \<open>TimeArrByRef\<close>
  in the very first timed trial (run 0, \<open>uint8_t\<close>, array size 1), the only entries those
  vectors hold when that trial ends.
\<close>

theorem exit_code_is_first_sums:
  assumes "nth_element_contract (nth_element pf)"
    and "kMaxArraySizex2 cfg = 2 ^ m" and "0 < m" and "m < 64"
    and "kTotalRuns cfg mod 2 = 1"
  shows "\<exists>ft v r s' code.
             first_trial pf cfg m = Inr ft \<and> arrByValSums ft = [v] \<and> arrByRefSums ft = [r]
           \<and> main pf cfg = Some (Inr (code, s'))
           \<and> code = sint (ucast (v + r) :: 32 word)
           \<and> - (2 ^ 31) \<le> code \<and> code < 2 ^ 31
           \<and> code mod 2 ^ 32 = uint (v + r) mod 2 ^ 32
           \<and> main pf cfg = Some (Inr (static_cast_int (v + r), s'))
           \<and> hd (arrByValSums s') = v \<and> hd (arrByRefSums s') = r"
proof -
  from main_ok[OF assms] obtain ft v r s' where
    m: "first_trial pf cfg m = Inr ft" "arrByValSums ft = [v]" "arrByRefSums ft = [r]"
       "main pf cfg = Some (Inr (static_cast_int (v + r), s'))"
       "hd (arrByValSums s') = v" "hd (arrByRefSums s') = r"
    by (elim exE conjE) (rule that)
  let ?code = "sint (ucast (v + r) :: 32 word)"
  have c: "static_cast_int (v + r) = ?code" by (simp only: static_cast_int_def)
  have 1: "main pf cfg = Some (Inr (?code, s'))" using m(4) by (simp only: c)
  have 2: "?code = sint (ucast (v + r) :: 32 word)" by (rule refl)
  have 3: "- (2 ^ 31) \<le> ?code" using sint_ge[of "ucast (v + r) :: 32 word"] by simp
  have 4: "?code < 2 ^ 31" using sint_lt[of "ucast (v + r) :: 32 word"] by simp
  have 5: "?code mod 2 ^ 32 = uint (v + r) mod 2 ^ 32"
    using static_cast_int_low_bits[of "v + r"] by (simp only: c)
  show ?thesis
    by (intro exI[of _ ft] exI[of _ v] exI[of _ r] exI[of _ s'] exI[of _ ?code] conjI)
       (rule m(1) m(2) m(3) 1 2 3 4 5 m(4) m(5) m(6))+
qed

lemma debug_config_odd: "kTotalRuns debug_config mod 2 = 1"
  by (simp add: debug_config_def)

theorem exit_code_is_first_sums_witness:
  "nth_element_contract (nth_element example_platform)
   \<and> kMaxArraySizex2 debug_config = 2 ^ 12 \<and> (0 :: nat) < 12 \<and> (12 :: nat) < 64
   \<and> kTotalRuns debug_config mod 2 = 1
   \<and> (\<exists>ft v r s' code. first_trial example_platform debug_config 12 = Inr ft
          \<and> arrByValSums ft = [v] \<and> arrByRefSums ft = [r]
          \<and> main example_platform debug_config = Some (Inr (code, s'))
          \<and> code = sint (ucast (v + r) :: 32 word)
          \<and> - (2 ^ 31) \<le> code \<and> code < 2 ^ 31)"
proof -
  have 3: "(0 :: nat) < 12" and 4: "(12 :: nat) < 64" by simp_all
  note t = exit_code_is_first_sums[OF example_platform_contract debug_config_max 3 4 debug_config_odd]
  from t obtain ft v r s' code where
    r: "first_trial example_platform debug_config 12 = Inr ft"
       "arrByValSums ft = [v]" "arrByRefSums ft = [r]"
       "main example_platform debug_config = Some (Inr (code, s'))"
       "code = sint (ucast (v + r) :: 32 word)"
       "- (2 ^ 31) \<le> code" "code < 2 ^ 31"
    by (elim exE conjE) (rule that)
  have "\<exists>ft v r s' code. first_trial example_platform debug_config 12 = Inr ft
          \<and> arrByValSums ft = [v] \<and> arrByRefSums ft = [r]
          \<and> main example_platform debug_config = Some (Inr (code, s'))
          \<and> code = sint (ucast (v + r) :: 32 word)
          \<and> - (2 ^ 31) \<le> code \<and> code < 2 ^ 31"
    by (intro exI[of _ ft] exI[of _ v] exI[of _ r] exI[of _ s'] exI[of _ code] conjI) (rule r)+
  then show ?thesis
    by (intro conjI) (rule example_platform_contract debug_config_max 3 4 debug_config_odd)+
qed

section \<open>Programmer errors\<close>

lemma main_static_assert: "kTotalRuns cfg mod 2 \<noteq> 1 \<Longrightarrow> main pf cfg = Some (Inl StaticAssertFailed)"
  by (simp add: main_def)

lemma Exp2_value:
  assumes "exponent < 64"
  shows "\<exists>r. Exp2 exponent = Inr r \<and> r = 2 ^ unat exponent \<and> unat r = 2 ^ unat exponent"
proof -
  have "unat exponent < 64" using assms by (simp add: word_less_nat_alt)
  then have "unat ((2::size_t) ^ unat exponent) = 2 ^ unat exponent" by (rule unat_pow2)
  then show ?thesis using Exp2_ok[OF assms] by simp
qed

lemma Log2_value:
  assumes "has_single_bit powerOf2"
  shows "\<exists>r. Log2 powerOf2 = Inr r \<and> unat r < 64 \<and> powerOf2 = 2 ^ unat r"
proof -
  from Log2_ok[OF assms] obtain k where
    k: "k < 64" "powerOf2 = 2 ^ k" "Log2 powerOf2 = Inr (of_nat k)" by blast
  have "unat (of_nat k :: size_t) = k" using k(1) by (rule unat_of_nat_64)
  then show ?thesis using k by simp
qed

lemma GetMedian_assert_holds:
  assumes "kTotalRuns cfg mod 2 = 1" "length c = unat (kTotalRuns cfg)"
  shows "\<exists>c' x. GetMedian nth_el c = Inr (c', x)"
proof -
  have "odd (length c)" using assms by (simp add: word_odd_iff)
  then have "length c mod 2 = 1" by (simp add: odd_iff_mod_2_eq_one)
  then show ?thesis by (simp add: GetMedian_def Let_def)
qed

lemma OutputResults_asserts_hold:
  assumes "kTotalRuns cfg mod 2 = 1" "nth_element_contract (nth_element pf)"
    "kMaxArraySizex2 cfg = 2 ^ m" "m < 64" "td_dims 4 m (unat (kTotalRuns cfg)) (timingData s)"
  shows "\<exists>s'. OutputResults pf cfg s = Inr s'"
proof -
  have "odd (unat (kTotalRuns cfg))" by (rule word_odd_iff[THEN iffD1, OF assms(1)])
  from OutputResults_ok[OF assms(2) this assms(3,4,5)] show ?thesis by blast
qed

lemma Exp2_rejects: "\<not> exponent < 64 \<Longrightarrow> Exp2 exponent = Inl AssertionFailed"
  by (simp add: Exp2_def)

lemma Log2_rejects:
  assumes "\<forall>k<64. powerOf2 \<noteq> 2 ^ k"
  shows "Log2 powerOf2 = Inl AssertionFailed"
proof -
  have "\<not> has_single_bit powerOf2" using assms by (simp add: has_single_bit_iff)
  then show ?thesis by (simp add: Log2_def)
qed

lemma Log2_error: "Log2 x = Inl e \<Longrightarrow> e = AssertionFailed"
  by (simp add: Log2_def split: if_splits)

lemma SetTimes_rejects:
  assumes "\<forall>k<64. arraySize \<noteq> 2 ^ k"
  shows "SetTimes T arraySize run baseline byRef byVal s = Inl AssertionFailed"
proof (cases "Log2 (sizeof T)")
  case (Inl e)
  then show ?thesis using Log2_error[OF Inl] by (simp add: SetTimes_def)
next
  case (Inr k)
  then show ?thesis by (simp add: SetTimes_def Log2_rejects[OF assms])
qed

lemma GetMedian_rejects: "even (length c) \<Longrightarrow> GetMedian nth_el c = Inl AssertionFailed"
  by (simp add: GetMedian_def even_iff_mod_2_eq_zero)

lemma OutputResults_rejects:
  assumes mx: "kMaxArraySizex2 cfg = 2 ^ m" "0 < m" "m < 64"
    and dims: "td_dims 4 m R (timingData s)" and R: "even R"
  shows "OutputResults pf cfg s = Inl AssertionFailed"
proof -
  have bd: "table_dims 4 m R (baselines (timingData s))" using dims by (simp add: td_dims_def)
  have e0: "(0::nat) < 4" by simp
  have lb: "load2 (baselines (timingData s)) 0 0 = Inr (baselines (timingData s) ! 0 ! 0)"
    using bd e0 mx(2) by (rule load2_ok)
  have "even (length (baselines (timingData s) ! 0 ! 0))"
    using table_dims_nth(3)[OF bd e0 mx(2)] R by simp
  then have gm: "GetMedian (nth_element pf) (baselines (timingData s) ! 0 ! 0) = Inl AssertionFailed"
    by (rule GetMedian_rejects)
  have inner: "Output_inner pf ByRefs ''by ref'' 1 0 0 m s = Inl AssertionFailed"
    by (subst Output_inner.simps) (simp add: mx(2) lb gm)
  have ex: "Exp2 (of_nat 0) = Inr 1" using Exp2_of_nat[of 0] by simp
  have outer: "Output_outer pf ByRefs ''by ref'' 0 4 m s = Inl AssertionFailed"
    by (subst Output_outer.simps) (simp add: ex[simplified] inner)
  have "Output pf cfg ByRefs ''by ref'' s = Inl AssertionFailed"
    by (simp add: Output_def kCountOfElemSizesToEval_eq kCountOfArraySizesToEval_eq[OF mx(1,3)]
          unat_of_nat_64[OF mx(3)] outer)
  then show ?thesis by (simp add: OutputResults_def)
qed

text \<open>
  C8.  An even \<open>kTotalRuns\<close> fails the static assertion of \<open>main\<close> before anything runs.
  For an exponent below the bit width of \<open>size_t\<close> the assertion of \<open>Exp2\<close> holds and the
  result is \<open>2 ^ exponent\<close>, without wrap-around; for a power of two the assertion of \<open>Log2\<close>
  holds and the result is its base-2 logarithm.  With an odd \<open>kTotalRuns\<close> the assertion of
  \<open>GetMedian\<close> holds for every array of \<open>kTotalRuns\<close> samples, and the whole report over a
  table of that shape ends without a failed assertion.

  The error conditions themselves are caught: an exponent of 64 or more fails the assertion
  of \<open>Exp2\<close>; an argument that is not a power of two fails the assertion of \<open>Log2\<close>, and so
  does \<open>SetTimes\<close> for an array size that is not a power of two, before it stores anything;
  a container of even length fails the assertion of \<open>GetMedian\<close>; and a report over a table
  with an even number of runs per cell fails at its first median instead of printing a line.
\<close>

theorem programmer_errors_caught:
  "(kTotalRuns cfg mod 2 \<noteq> 1 \<longrightarrow> main pf cfg = Some (Inl StaticAssertFailed))
   \<and> (exponent < 64 \<longrightarrow>
        (\<exists>r. Exp2 exponent = Inr r \<and> r = 2 ^ unat exponent \<and> unat r = 2 ^ unat exponent))
   \<and> (has_single_bit powerOf2 \<longrightarrow>
        (\<exists>r. Log2 powerOf2 = Inr r \<and> unat r < 64 \<and> powerOf2 = 2 ^ unat r))
   \<and> (kTotalRuns cfg' mod 2 = 1 \<and> length c = unat (kTotalRuns cfg') \<longrightarrow>
        (\<exists>c' x. GetMedian nth_el c = Inr (c', x)))
   \<and> (kTotalRuns cfg' mod 2 = 1 \<and> nth_element_contract (nth_element pf')
        \<and> kMaxArraySizex2 cfg' = 2 ^ m \<and> m < 64
        \<and> td_dims 4 m (unat (kTotalRuns cfg')) (timingData s) \<longrightarrow>
        (\<exists>s'. OutputResults pf' cfg' s = Inr s'))
   \<and> (\<not> badExponent < 64 \<longrightarrow> Exp2 badExponent = Inl AssertionFailed)
   \<and> (has_single_bit powerOf2 \<longleftrightarrow> (\<exists>k<64. powerOf2 = 2 ^ k))
   \<and> ((\<forall>k<64. notPowerOf2 \<noteq> 2 ^ k) \<longrightarrow>
        Log2 notPowerOf2 = Inl AssertionFailed
        \<and> SetTimes T notPowerOf2 run baseline byRef byVal st = Inl AssertionFailed)
   \<and> (even (length evenCell) \<longrightarrow> GetMedian nth_el evenCell = Inl AssertionFailed)
   \<and> (kTotalRuns cfg mod 2 \<noteq> 1 \<and> kMaxArraySizex2 cfg = 2 ^ n \<and> 0 < n \<and> n < 64
        \<and> td_dims 4 n (unat (kTotalRuns cfg)) (timingData evenTable) \<longrightarrow>
        OutputResults pf cfg evenTable = Inl AssertionFailed)"
proof (intro conjI impI)
  assume "kTotalRuns cfg mod 2 \<noteq> 1"
  then show "main pf cfg = Some (Inl StaticAssertFailed)" by (rule main_static_assert)
next
  assume "exponent < 64"
  then show "\<exists>r. Exp2 exponent = Inr r \<and> r = 2 ^ unat exponent \<and> unat r = 2 ^ unat exponent"
    by (rule Exp2_value)
next
  assume "has_single_bit powerOf2"
  then show "\<exists>r. Log2 powerOf2 = Inr r \<and> unat r < 64 \<and> powerOf2 = 2 ^ unat r"
    by (rule Log2_value)
next
  assume "kTotalRuns cfg' mod 2 = 1 \<and> length c = unat (kTotalRuns cfg')"
  then show "\<exists>c' x. GetMedian nth_el c = Inr (c', x)"
    by (elim conjE) (rule GetMedian_assert_holds)
next
  assume "kTotalRuns cfg' mod 2 = 1 \<and> nth_element_contract (nth_element pf')
        \<and> kMaxArraySizex2 cfg' = 2 ^ m \<and> m < 64
        \<and> td_dims 4 m (unat (kTotalRuns cfg')) (timingData s)"
  then show "\<exists>s'. OutputResults pf' cfg' s = Inr s'"
    by (elim conjE) (rule OutputResults_asserts_hold)
next
  assume "\<not> badExponent < 64"
  then show "Exp2 badExponent = Inl AssertionFailed" by (rule Exp2_rejects)
next
  show "has_single_bit powerOf2 \<longleftrightarrow> (\<exists>k<64. powerOf2 = 2 ^ k)" by (rule has_single_bit_iff)
next
  assume "\<forall>k<64. notPowerOf2 \<noteq> 2 ^ k"
  then show "Log2 notPowerOf2 = Inl AssertionFailed" by (rule Log2_rejects)
next
  assume "\<forall>k<64. notPowerOf2 \<noteq> 2 ^ k"
  then show "SetTimes T notPowerOf2 run baseline byRef byVal st = Inl AssertionFailed"
    by (rule SetTimes_rejects)
next
  assume "even (length evenCell)"
  then show "GetMedian nth_el evenCell = Inl AssertionFailed" by (rule GetMedian_rejects)
next
  assume a: "kTotalRuns cfg mod 2 \<noteq> 1 \<and> kMaxArraySizex2 cfg = 2 ^ n \<and> 0 < n \<and> n < 64
        \<and> td_dims 4 n (unat (kTotalRuns cfg)) (timingData evenTable)"
  then have "even (unat (kTotalRuns cfg))" using word_odd_iff[of "kTotalRuns cfg"] by blast
  with a show "OutputResults pf cfg evenTable = Inl AssertionFailed"
    by (elim conjE) (rule OutputResults_rejects)
qed

theorem programmer_errors_caught_witness:
  "kTotalRuns (debug_config\<lparr>kTotalRuns := 4\<rparr>) mod 2 \<noteq> 1
   \<and> main example_platform (debug_config\<lparr>kTotalRuns := 4\<rparr>) = Some (Inl StaticAssertFailed)
   \<and> (12 :: size_t) < 64 \<and> Exp2 12 = Inr 4096
   \<and> has_single_bit 4096 \<and> (\<exists>r. Log2 4096 = Inr r \<and> unat r < 64 \<and> (4096 :: size_t) = 2 ^ unat r)
   \<and> kTotalRuns debug_config mod 2 = 1 \<and> length [7, 5, 6 :: int] = unat (kTotalRuns debug_config)
   \<and> GetMedian quickselect [7, 5, 6 :: int] = Inr ([5, 6, 7], 6)
   \<and> nth_element_contract (nth_element example_platform)
   \<and> kMaxArraySizex2 debug_config = 2 ^ 12 \<and> (12 :: nat) < 64
   \<and> td_dims 4 12 (unat (kTotalRuns debug_config)) (timingData example_state)
   \<and> (\<exists>s'. OutputResults example_platform debug_config example_state = Inr s')
   \<and> \<not> (64 :: size_t) < 64 \<and> Exp2 64 = Inl AssertionFailed
   \<and> \<not> has_single_bit 12 \<and> Log2 12 = Inl AssertionFailed
   \<and> SetTimes TYPE(8) 12 0 1 1 1 example_state = Inl AssertionFailed
   \<and> even (length [7, 5 :: int]) \<and> GetMedian quickselect [7, 5 :: int] = Inl AssertionFailed
   \<and> kMaxArraySizex2 (debug_config\<lparr>kTotalRuns := 4\<rparr>) = 2 ^ 12 \<and> (0 :: nat) < 12
   \<and> td_dims 4 12 (unat (kTotalRuns (debug_config\<lparr>kTotalRuns := 4\<rparr>)))
         (timingData (initial_globals 4 12 4))
   \<and> OutputResults example_platform (debug_config\<lparr>kTotalRuns := 4\<rparr>) (initial_globals 4 12 4)
       = Inl AssertionFailed"
proof -
  let ?ecfg = "debug_config\<lparr>kTotalRuns := 4\<rparr>"
  have h1: "kTotalRuns ?ecfg mod 2 \<noteq> 1" by simp
  have h2: "(12 :: size_t) < 64" by simp
  have h3: "has_single_bit 4096"
    unfolding has_single_bit_iff by (rule exI[of _ 12]) simp
  have h4: "length [7, 5, 6 :: int] = unat (kTotalRuns debug_config)"
    by (simp add: debug_config_def)
  have h5: "(12 :: nat) < 64" by simp
  have h6: "td_dims 4 12 (unat (kTotalRuns debug_config)) (timingData example_state)"
    using example_state_dims by (simp add: debug_config_def)
  have h7: "\<not> (64 :: size_t) < 64" by simp
  have h8n: "\<not> has_single_bit 12" by code_simp
  then have h8: "\<forall>k<64. (12 :: size_t) \<noteq> 2 ^ k" by (simp add: has_single_bit_iff)
  have h9: "even (length [7, 5 :: int])" by simp
  have h10: "kMaxArraySizex2 ?ecfg = 2 ^ 12" by (simp add: debug_config_def)
  have h11: "(0 :: nat) < 12" by simp
  have h12: "td_dims 4 12 (unat (kTotalRuns ?ecfg)) (timingData (initial_globals 4 12 4))"
    by (simp add: td_dims_def initial_globals_def table_dims_replicate)
  note t = programmer_errors_caught[of ?ecfg example_platform 12 4096
      debug_config "[7, 5, 6 :: int]" quickselect example_platform 12 example_state
      64 12 "TYPE(8)" 0 1 1 1 example_state "[7, 5 :: int]" 12 "initial_globals 4 12 4"]
  note t1 = t[THEN conjunct1] and t2 = t[THEN conjunct2, THEN conjunct1]
    and t3 = t[THEN conjunct2, THEN conjunct2, THEN conjunct1]
    and t4 = t[THEN conjunct2, THEN conjunct2, THEN conjunct2, THEN conjunct1]
    and t5 = t[THEN conjunct2, THEN conjunct2, THEN conjunct2, THEN conjunct2, THEN conjunct1]
    and u = t[THEN conjunct2, THEN conjunct2, THEN conjunct2, THEN conjunct2, THEN conjunct2]
  note t6 = u[THEN conjunct1]
    and t8 = u[THEN conjunct2, THEN conjunct2, THEN conjunct1]
    and t9 = u[THEN conjunct2, THEN conjunct2, THEN conjunct2, THEN conjunct1]
    and t10 = u[THEN conjunct2, THEN conjunct2, THEN conjunct2, THEN conjunct2]
  have c1: "main example_platform ?ecfg = Some (Inl StaticAssertFailed)"
    by (rule t1[THEN mp, OF h1])
  from t2[THEN mp, OF h2] obtain r where "Exp2 12 = Inr r" "r = 2 ^ unat (12 :: size_t)"
    by (elim exE conjE)
  then have c2: "Exp2 12 = Inr 4096" by simp
  have c3: "\<exists>r. Log2 4096 = Inr r \<and> unat r < 64 \<and> (4096 :: size_t) = 2 ^ unat r"
    by (rule t3[THEN mp, OF h3])
  have c4: "GetMedian quickselect [7, 5, 6 :: int] = Inr ([5, 6, 7], 6)"
    using t4[THEN mp, OF conjI[OF debug_config_odd h4]] by (simp add: GetMedian_def)
  have c5: "\<exists>s'. OutputResults example_platform debug_config example_state = Inr s'"
    by (rule t5[THEN mp]) (intro conjI debug_config_odd example_platform_contract
          debug_config_max h5 h6)
  have c6: "Exp2 64 = Inl AssertionFailed" by (rule t6[THEN mp, OF h7])
  have c7: "Log2 12 = Inl AssertionFailed"
    by (rule t8[THEN mp, OF h8, THEN conjunct1])
  have c8: "SetTimes TYPE(8) 12 0 1 1 1 example_state = Inl AssertionFailed"
    by (rule t8[THEN mp, OF h8, THEN conjunct2])
  have c9: "GetMedian quickselect [7, 5 :: int] = Inl AssertionFailed"
    by (rule t9[THEN mp, OF h9])
  have c10: "OutputResults example_platform ?ecfg (initial_globals 4 12 4) = Inl AssertionFailed"
    by (rule t10[THEN mp]) (intro conjI h1 h10 h11 h5 h12)
  show ?thesis
    by (intro conjI) (rule h1 c1 h2 c2 h3 c3 debug_config_odd h4 c4 example_platform_contract
          debug_config_max h5 h6 c5 h7 c6 h8n c7 c8 h9 c9 h10 h11 h12 c10)+
qed

section \<open>Contents of the table\<close>

lemma store3_nth:
  assumes "store3 t i j k v = Inr t'"
  shows "t' ! i ! j ! k = v"
    and "(i', j', k') \<noteq> (i, j, k) \<Longrightarrow> t' ! i' ! j' ! k' = t ! i' ! j' ! k'"
proof -
  from assms have r: "i < length t" "j < length (t ! i)" "k < length (t ! i ! j)"
    and t': "t' = t[i := (t ! i)[j := (t ! i ! j)[k := v]]]"
    by (auto simp: store3_def split: if_splits)
  show "t' ! i ! j ! k = v" using r by (simp add: t')
  show "t' ! i' ! j' ! k' = t ! i' ! j' ! k'" if "(i', j', k') \<noteq> (i, j, k)"
  proof (cases "i' = i")
    case False
    then show ?thesis by (simp add: t')
  next
    case i: True
    show ?thesis
    proof (cases "j' = j")
      case False
      then show ?thesis using r i by (simp add: t')
    next
      case True
      then have "k' \<noteq> k" using that i by simp
      then show ?thesis using r i True by (simp add: t')
    qed
  qed
qed

lemma table_log_inv_step:
  assumes inv: "table_log_inv pf s" and fresh: "(e, a, r) \<notin> set (set_log s)"
    and l: "set_log s' = set_log s @ [(e, a, r)]" and c: "clock_reads s' = clock_reads s + 6"
    and b: "store3 (baselines (timingData s)) e a r (elapsed pf (clock_reads s))
              = Inr (baselines (timingData s'))"
    and rf: "store3 (byRefs (timingData s)) e a r (elapsed pf (clock_reads s + 2))
              = Inr (byRefs (timingData s'))"
    and vl: "store3 (byVals (timingData s)) e a r (elapsed pf (clock_reads s + 4))
              = Inr (byVals (timingData s'))"
  shows "table_log_inv pf s'"
proof -
  let ?n = "length (set_log s)"
  have k: "clock_reads s = 6 * ?n" using inv by (simp add: table_log_inv_def)
  have old: "baselines (timingData s) ! e' ! a' ! r' = elapsed pf (6 * i) \<and>
             byRefs (timingData s) ! e' ! a' ! r' = elapsed pf (6 * i + 2) \<and>
             byVals (timingData s) ! e' ! a' ! r' = elapsed pf (6 * i + 4)"
    if "i < ?n" "set_log s ! i = (e', a', r')" for i e' a' r'
    using inv that by (auto simp: table_log_inv_def)
  have "baselines (timingData s') ! e' ! a' ! r' = elapsed pf (6 * i) \<and>
        byRefs (timingData s') ! e' ! a' ! r' = elapsed pf (6 * i + 2) \<and>
        byVals (timingData s') ! e' ! a' ! r' = elapsed pf (6 * i + 4)"
    if i: "i < length (set_log s')" and ci: "set_log s' ! i = (e', a', r')" for i e' a' r'
  proof (cases "i < ?n")
    case True
    then have at: "set_log s ! i = (e', a', r')" using ci by (simp add: l nth_append)
    then have "(e', a', r') \<in> set (set_log s)" using True by (metis nth_mem)
    then have ne: "(e', a', r') \<noteq> (e, a, r)" using fresh by auto
    show ?thesis
      using old[OF True at] store3_nth(2)[OF b ne] store3_nth(2)[OF rf ne] store3_nth(2)[OF vl ne]
      by simp
  next
    case False
    then have "i = ?n" using i by (simp add: l)
    then have "(e', a', r') = (e, a, r)" using ci by (simp add: l)
    then show ?thesis
      using store3_nth(1)[OF b] store3_nth(1)[OF rf] store3_nth(1)[OF vl] \<open>i = ?n\<close>
      by (simp add: k)
  qed
  then show ?thesis
    by (auto simp: table_log_inv_def c k l)
qed

lemma Eval_log_inv:
  fixes T :: "'t::len itself"
  assumes mx: "kMaxArraySizex2 cfg = 2 ^ m" "m < 64"
    and T: "Log2 (sizeof T) = Inr (of_nat e)" "e < 4"
    and run: "run < R"
  shows "a \<le> m \<Longrightarrow> driver_inv m R s \<Longrightarrow> table_log_inv pf s \<Longrightarrow>
    (\<forall>j. a \<le> j \<and> j < m \<longrightarrow> (e, j, run) \<notin> set (set_log s)) \<Longrightarrow>
    Eval T pf cfg (2 ^ a) run s = Some (Inr s') \<Longrightarrow> table_log_inv pf s'"
proof (induction d \<equiv> "m - a" arbitrary: a s)
  case 0
  then have "a = m" by simp
  then have "Eval T pf cfg (2 ^ a) run s = Some (Inr s)"
    by (subst Eval.simps) (simp add: mx(1))
  with 0 show ?case by simp
next
  case (Suc d)
  have lt: "a < m" and d: "d = m - Suc a" and le: "Suc a \<le> m" using Suc.hyps(2) by simp_all
  have m64: "m \<le> 64" using mx(2) by simp
  from Eval_body_ok[OF T lt m64 run Suc.prems(2), of pf cfg] obtain sb where
    b: "Eval_body T pf cfg (2 ^ a) run s = Inr sb" "driver_inv m R sb"
       "set_log sb = set_log s @ [(e, a, run)]"
       "clock_reads sb = clock_reads s + 6"
       "store3 (baselines (timingData s)) e a run (elapsed pf (clock_reads s))
          = Inr (baselines (timingData sb))"
       "store3 (byRefs (timingData s)) e a run (elapsed pf (clock_reads s + 2))
          = Inr (byRefs (timingData sb))"
       "store3 (byVals (timingData s)) e a run (elapsed pf (clock_reads s + 4))
          = Inr (byVals (timingData sb))"
    by (elim exE conjE) (rule that)
  have fresh: "(e, a, run) \<notin> set (set_log s)" using Suc.prems(4) lt by simp
  have inv': "table_log_inv pf sb"
    using Suc.prems(3) fresh b(3,4,5,6,7) by (rule table_log_inv_step)
  have fresh': "\<forall>j. Suc a \<le> j \<and> j < m \<longrightarrow> (e, j, run) \<notin> set (set_log sb)"
    using Suc.prems(4) by (auto simp: b(3))
  have ne: "(2::size_t) ^ a \<noteq> 2 ^ m" using lt mx(2) by (rule pow2_word_neq)
  have p: "(2::size_t) ^ a * 2 = 2 ^ Suc a" by simp
  have "Eval T pf cfg (2 ^ a) run s = Eval T pf cfg (2 ^ Suc a) run sb"
    by (subst Eval.simps) (simp add: mx(1) ne b(1) p del: power_Suc)
  then have "Eval T pf cfg (2 ^ Suc a) run sb = Some (Inr s')" using Suc.prems(5) by simp
  from Suc.hyps(1)[OF d le b(2) inv' fresh' this] show ?case .
qed

lemma table_log_inv_cout: "table_log_inv pf (s\<lparr>cout := c\<rparr>) = table_log_inv pf s"
  by (simp add: table_log_inv_def)

lemma run_body_log_inv:
  assumes mx: "kMaxArraySizex2 cfg = 2 ^ m" "m < 64"
    and run: "run < R" and inv: "driver_inv m R s" and tl: "table_log_inv pf s"
    and fresh: "\<forall>e j. e < 4 \<and> j < m \<longrightarrow> (e, j, run) \<notin> set (set_log s)"
    and res: "run_body pf cfg run s = Some (Inr s')"
  shows "table_log_inv pf s'"
proof -
  let ?s0 = "s\<lparr>cout := cout s @ [RunNo run]\<rparr>"
  have inv0: "driver_inv m R ?s0" using inv by (simp add: driver_inv_cout)
  have tl0: "table_log_inv pf ?s0" using tl by (simp add: table_log_inv_cout)
  from Eval_ok[OF mx Log2_sizeof(1) _ run _ inv0, of 0 pf] obtain s1 where
    1: "Eval TYPE(8) pf cfg 1 run ?s0 = Some (Inr s1)" "driver_inv m R s1"
       "set_log s1 = set_log s @ map (\<lambda>j. (0, j, run)) [0..<m]"
    by auto
  from Eval_ok[OF mx Log2_sizeof(2) _ run _ 1(2), of 0 pf] obtain s2 where
    2: "Eval TYPE(16) pf cfg 1 run s1 = Some (Inr s2)" "driver_inv m R s2"
       "set_log s2 = set_log s1 @ map (\<lambda>j. (1, j, run)) [0..<m]"
    by auto
  from Eval_ok[OF mx Log2_sizeof(3) _ run _ 2(2), of 0 pf] obtain s3 where
    3: "Eval TYPE(32) pf cfg 1 run s2 = Some (Inr s3)" "driver_inv m R s3"
       "set_log s3 = set_log s2 @ map (\<lambda>j. (2, j, run)) [0..<m]"
    by auto
  from Eval_ok[OF mx Log2_sizeof(4) _ run _ 3(2), of 0 pf] obtain s4 where
    4: "Eval TYPE(64) pf cfg 1 run s3 = Some (Inr s4)"
    by auto
  have f0: "\<forall>j. 0 \<le> j \<and> j < m \<longrightarrow> (0, j, run) \<notin> set (set_log ?s0)"
    using fresh by simp
  have t1: "table_log_inv pf s1"
    using Eval_log_inv[OF mx Log2_sizeof(1) _ run _ inv0 tl0 f0, where s' = s1] 1(1) by simp
  have f1: "\<forall>j. 0 \<le> j \<and> j < m \<longrightarrow> (1, j, run) \<notin> set (set_log s1)"
    using fresh by (auto simp: 1(3))
  have t2: "table_log_inv pf s2"
    using Eval_log_inv[OF mx Log2_sizeof(2) _ run _ 1(2) t1 f1, where s' = s2] 2(1) by simp
  have f2: "\<forall>j. 0 \<le> j \<and> j < m \<longrightarrow> (2, j, run) \<notin> set (set_log s2)"
    using fresh by (auto simp: 1(3) 2(3))
  have t3: "table_log_inv pf s3"
    using Eval_log_inv[OF mx Log2_sizeof(3) _ run _ 2(2) t2 f2, where s' = s3] 3(1) by simp
  have f3: "\<forall>j. 0 \<le> j \<and> j < m \<longrightarrow> (3, j, run) \<notin> set (set_log s3)"
    using fresh by (auto simp: 1(3) 2(3) 3(3))
  have t4: "table_log_inv pf s4"
    using Eval_log_inv[OF mx Log2_sizeof(4) _ run _ 3(2) t3 f3, where s' = s4] 4(1) by simp
  have "run_body pf cfg run s = Some (Inr s4)"
    by (simp add: run_body_def then_Eval_def 1(1) 2(1) 3(1) 4(1))
  then have "s' = s4" using res by simp
  then show ?thesis using t4 by simp
qed

lemma main_loop_log_inv:
  assumes mx: "kMaxArraySizex2 cfg = 2 ^ m" "m < 64"
  shows "run \<le> unat (kTotalRuns cfg) \<Longrightarrow> driver_inv m (unat (kTotalRuns cfg)) s \<Longrightarrow>
    table_log_inv pf s \<Longrightarrow>
    (\<forall>r e j. run \<le> r \<and> e < 4 \<and> j < m \<longrightarrow> (e, j, r) \<notin> set (set_log s)) \<Longrightarrow>
    main_loop pf cfg run s = Some (Inr s') \<Longrightarrow> table_log_inv pf s'"
proof (induction d \<equiv> "unat (kTotalRuns cfg) - run" arbitrary: run s)
  case 0
  then have "\<not> run < unat (kTotalRuns cfg)" by simp
  then have "main_loop pf cfg run s = Some (Inr s)"
    by (subst main_loop.simps) simp
  with 0 show ?case by simp
next
  case (Suc d)
  let ?R = "unat (kTotalRuns cfg)"
  have lt: "run < ?R" and d: "d = ?R - Suc run" and le: "Suc run \<le> ?R"
    using Suc.hyps(2) by simp_all
  from run_body_ok[OF mx lt Suc.prems(2), of pf] obtain s1 where
    1: "run_body pf cfg run s = Some (Inr s1)" "driver_inv m ?R s1"
       "set_log s1 = set_log s @ concat (map (\<lambda>e. map (\<lambda>j. (e, j, run)) [0..<m]) [0..<4])"
    by blast
  have f: "\<forall>e j. e < 4 \<and> j < m \<longrightarrow> (e, j, run) \<notin> set (set_log s)"
    using Suc.prems(4) by simp
  have t1: "table_log_inv pf s1"
    using run_body_log_inv[OF mx lt Suc.prems(2,3) f 1(1)] .
  have f1: "\<forall>r e j. Suc run \<le> r \<and> e < 4 \<and> j < m \<longrightarrow> (e, j, r) \<notin> set (set_log s1)"
    using Suc.prems(4) by (auto simp: 1(3))
  have "main_loop pf cfg run s = main_loop pf cfg (Suc run) s1"
    by (subst main_loop.simps) (simp add: lt 1(1))
  then have "main_loop pf cfg (Suc run) s1 = Some (Inr s')" using Suc.prems(5) by simp
  from Suc.hyps(1)[OF d le 1(2) t1 f1 this] show ?case .
qed

lemma initial_table_log_inv: "table_log_inv pf (initial_globals E A R)"
  by (simp add: table_log_inv_def initial_globals_def)

lemma nth_coordinates:
  assumes "r < R" "e < n" "a < m"
  shows "concat (map (\<lambda>r. concat (map (\<lambda>e. map (\<lambda>j. (e, j, r)) [0..<m]) [0..<n])) [0..<R])
           ! ((r * n + e) * m + a) = (e, a, r)"
proof -
  have p1: "e * m + a < n * m"
  proof -
    have "e * m + a < e * m + m" using assms(3) by simp
    also have "\<dots> = Suc e * m" by simp
    also have "\<dots> \<le> n * m" using assms(2) by (intro mult_le_mono1) simp
    finally show ?thesis .
  qed
  have idx: "(r * n + e) * m + a = r * (n * m) + (e * m + a)" by (simp add: algebra_simps)
  have p2: "r * (n * m) + (e * m + a) < R * (n * m)"
  proof -
    have "r * (n * m) + (e * m + a) < r * (n * m) + n * m" using p1 by simp
    also have "\<dots> = Suc r * (n * m)" by simp
    also have "\<dots> \<le> R * (n * m)" using assms(1) by (intro mult_le_mono1) simp
    finally show ?thesis .
  qed
  have q: "0 < n * m" using p1 by (cases "n * m") simp_all
  have d1: "(r * (n * m) + (e * m + a)) div (n * m) = r" using p1 q by simp
  have m1: "(r * (n * m) + (e * m + a)) mod (n * m) = e * m + a" using p1 by simp
  have d2: "(e * m + a) div m = e" using assms(3) by simp
  have m2: "(e * m + a) mod m = a" using assms(3) by simp
  have "List.product [0..<R] (List.product [0..<n] [0..<m]) ! (r * (n * m) + (e * m + a))
          = (r, e, a)"
    using p1 p2 assms by (simp add: product_nth d1 m1 d2 m2)
  then show ?thesis
    unfolding coordinates_product idx using p2 by (simp add: nth_map)
qed

text \<open>
  C7.  When the run loop of \<open>main\<close> ends, \<open>SetTimes\<close> has stored the three durations of a trial
  at the coordinates \<open>(e, a, r)\<close> in exactly the order \<open>r = 0..R-1\<close>, \<open>e = 0..3\<close>, \<open>a = 0..m-1\<close>:
  every coordinate of the table (4 element sizes, \<open>m = Log2 kMaxArraySizex2\<close> array sizes,
  \<open>R = kTotalRuns\<close> runs) has been written, and none twice.  The loop runs to its end without
  an error, the table keeps its shape, and each cell of the three series holds the duration
  measured by the trial of its own coordinate (the trial number \<open>(r * 4 + e) * m + a\<close>, which
  reads the clock six times).
\<close>

theorem timing_table_fully_populated:
  assumes "kMaxArraySizex2 cfg = 2 ^ m" and "m < 64"
  shows "\<exists>s'. main_loop pf cfg 0
                ((initial_globals 4 m (unat (kTotalRuns cfg)))
                   \<lparr>cout := [Progress ''Running timing evaluation'']\<rparr>) = Some (Inr s')
           \<and> td_dims 4 m (unat (kTotalRuns cfg)) (timingData s')
           \<and> set_log s' = [(e, a, r). r \<leftarrow> [0..<unat (kTotalRuns cfg)], e \<leftarrow> [0..<4], a \<leftarrow> [0..<m]]
           \<and> distinct (set_log s')
           \<and> set (set_log s') = {0..<4} \<times> {0..<m} \<times> {0..<unat (kTotalRuns cfg)}
           \<and> (\<forall>r<unat (kTotalRuns cfg). \<forall>e<4. \<forall>a<m.
                 baselines (timingData s') ! e ! a ! r = elapsed pf (6 * ((r * 4 + e) * m + a)) \<and>
                 byRefs (timingData s') ! e ! a ! r = elapsed pf (6 * ((r * 4 + e) * m + a) + 2) \<and>
                 byVals (timingData s') ! e ! a ! r = elapsed pf (6 * ((r * 4 + e) * m + a) + 4))"
proof -
  let ?R = "unat (kTotalRuns cfg)"
  let ?s1 = "(initial_globals 4 m ?R)\<lparr>cout := [Progress ''Running timing evaluation'']\<rparr>"
  let ?log = "concat (map (\<lambda>r. concat (map (\<lambda>e. map (\<lambda>j. (e, j, r)) [0..<m]) [0..<4])) [0..<?R])"
  have inv: "driver_inv m ?R ?s1" by (simp add: driver_inv_cout initial_driver_inv)
  from main_loop_ok[OF assms _ inv, of 0 pf] obtain s' where
    r: "main_loop pf cfg 0 ?s1 = Some (Inr s')" "driver_inv m ?R s'"
       "set_log s' = set_log ?s1 @ ?log"
    by auto
  have l: "set_log s' = ?log" using r(3) by (simp add: initial_globals_def)
  have tl1: "table_log_inv pf ?s1" by (simp add: table_log_inv_cout initial_table_log_inv)
  have fresh: "\<forall>r e j. 0 \<le> r \<and> e < 4 \<and> j < m \<longrightarrow> (e, j, r) \<notin> set (set_log ?s1)"
    by (simp add: initial_globals_def)
  have tl: "table_log_inv pf s'"
    using main_loop_log_inv[OF assms _ inv tl1 fresh r(1)] by simp
  have cells: "baselines (timingData s') ! e ! a ! r = elapsed pf (6 * ((r * 4 + e) * m + a)) \<and>
               byRefs (timingData s') ! e ! a ! r = elapsed pf (6 * ((r * 4 + e) * m + a) + 2) \<and>
               byVals (timingData s') ! e ! a ! r = elapsed pf (6 * ((r * 4 + e) * m + a) + 4)"
    if c: "r < ?R" "e < 4" "a < m" for r e a
  proof -
    let ?i = "(r * 4 + e) * m + a"
    have at: "set_log s' ! ?i = (e, a, r)" unfolding l using c by (rule nth_coordinates)
    have "?i < (r * 4 + e) * m + m" using c(3) by simp
    also have "\<dots> = Suc (r * 4 + e) * m" by simp
    also have "\<dots> \<le> (?R * 4) * m"
      using c(1,2) by (intro mult_le_mono1) simp
    finally have "?i < length (set_log s')"
      unfolding l length_coordinates by simp
    with tl at show ?thesis by (auto simp: table_log_inv_def)
  qed
  show ?thesis
  proof (intro exI conjI allI impI)
    show "main_loop pf cfg 0 ?s1 = Some (Inr s')" by (rule r(1))
    show "td_dims 4 m ?R (timingData s')" using r(2) by (simp add: driver_inv_def)
    show "set_log s' = [(e, a, r). r \<leftarrow> [0..<?R], e \<leftarrow> [0..<4], a \<leftarrow> [0..<m]]"
      unfolding l by simp
    show "distinct (set_log s')" unfolding l by (rule distinct_coordinates)
    show "set (set_log s') = {0..<4} \<times> {0..<m} \<times> {0..<?R}"
      unfolding l by (rule set_coordinates)
  next
    fix r e a :: nat
    assume "r < ?R" "e < 4" "a < m"
    from cells[OF this]
    show "baselines (timingData s') ! e ! a ! r = elapsed pf (6 * ((r * 4 + e) * m + a))"
      "byRefs (timingData s') ! e ! a ! r = elapsed pf (6 * ((r * 4 + e) * m + a) + 2)"
      "byVals (timingData s') ! e ! a ! r = elapsed pf (6 * ((r * 4 + e) * m + a) + 4)"
      by simp_all
  qed
qed

theorem timing_table_fully_populated_witness:
  "kMaxArraySizex2 debug_config = 2 ^ 12 \<and> (12 :: nat) < 64
   \<and> unat (kTotalRuns debug_config) = 3
   \<and> (\<exists>s'. main_loop example_platform debug_config 0
              ((initial_globals 4 12 3)\<lparr>cout := [Progress ''Running timing evaluation'']\<rparr>)
              = Some (Inr s')
          \<and> length (set_log s') = 144
          \<and> distinct (set_log s')
          \<and> set (set_log s') = {0..<4} \<times> {0..<12} \<times> {0..<3}
          \<and> baselines (timingData s') ! 3 ! 11 ! 2 = 1
          \<and> byRefs (timingData s') ! 3 ! 11 ! 2 = 1
          \<and> byVals (timingData s') ! 3 ! 11 ! 2 = 1)"
proof -
  have 2: "(12 :: nat) < 64" by simp
  have 3: "unat (kTotalRuns debug_config) = 3" by (simp add: debug_config_def)
  note t = timing_table_fully_populated[OF debug_config_max 2, of example_platform, unfolded 3]
  from t obtain s' where
    r: "main_loop example_platform debug_config 0
          ((initial_globals 4 12 3)\<lparr>cout := [Progress ''Running timing evaluation'']\<rparr>)
          = Some (Inr s')"
       "set_log s' = [(e, a, r). r \<leftarrow> [0..<3], e \<leftarrow> [0..<4], a \<leftarrow> [0..<12]]"
       "distinct (set_log s')"
       "set (set_log s') = {0..<4} \<times> {0..<12} \<times> {0..<3}"
       "\<forall>r<3. \<forall>e<4. \<forall>a<12.
          baselines (timingData s') ! e ! a ! r
            = elapsed example_platform (6 * ((r * 4 + e) * 12 + a)) \<and>
          byRefs (timingData s') ! e ! a ! r
            = elapsed example_platform (6 * ((r * 4 + e) * 12 + a) + 2) \<and>
          byVals (timingData s') ! e ! a ! r
            = elapsed example_platform (6 * ((r * 4 + e) * 12 + a) + 4)"
    by (elim exE conjE) (rule that)
  have len: "length (set_log s') = 144"
    by (simp only: r(2) length_coordinates length_upt) simp
  have el: "elapsed example_platform k = 1" for k
    by (simp add: elapsed_def example_platform_def algebra_simps)
  have c: "baselines (timingData s') ! 3 ! 11 ! 2 = 1" "byRefs (timingData s') ! 3 ! 11 ! 2 = 1"
    "byVals (timingData s') ! 3 ! 11 ! 2 = 1"
    using r(5)[rule_format, of 2 3 11] by (simp_all add: el)
  have "\<exists>s'. main_loop example_platform debug_config 0
              ((initial_globals 4 12 3)\<lparr>cout := [Progress ''Running timing evaluation'']\<rparr>)
              = Some (Inr s')
          \<and> length (set_log s') = 144
          \<and> distinct (set_log s')
          \<and> set (set_log s') = {0..<4} \<times> {0..<12} \<times> {0..<3}
          \<and> baselines (timingData s') ! 3 ! 11 ! 2 = 1
          \<and> byRefs (timingData s') ! 3 ! 11 ! 2 = 1
          \<and> byVals (timingData s') ! 3 ! 11 ! 2 = 1"
    by (intro exI[of _ s'] conjI) (rule r(1) len r(3) r(4) c)+
  then show ?thesis
    by (intro conjI) (rule debug_config_max 2 3)+
qed

end
